theory Spec2Isabelle
  imports Main "HOL-Library.Multiset"
begin

section \<open>The data generator \<open>scripts/generate-data.js\<close>\<close>

text \<open>
  The script fetches the file tree of a GitHub repository, turns it into a list of nodes
  (root, directories, files) and a flat list of edges, trims the nodes to a cap of 2500 and
  writes both lists as JavaScript modules. This theory embeds the script: its data, the
  two passes that build the nodes, the two edge loops, the trimming, the serialisation and
  the process around them (arguments, requests, exit status, files written).

  Strings are lists of 8-bit code units. The entries of the fetched tree are taken to be
  objects whose \<open>path\<close> and \<open>type\<close> are strings, as the GitHub API delivers them.
\<close>

subsection \<open>Data\<close>

text \<open>An entry of \<open>treeData.tree\<close>; the script reads its \<open>path\<close> and its \<open>type\<close> only.\<close>

record entry =
  path :: string
  type :: string

text \<open>
  A node object \<open>{ t, p, id }\<close>, with the property \<open>pid\<close> present or not. The field \<open>id\<close> is
  written \<open>id'\<close> here.
\<close>

record node =
  t :: string
  p :: string
  id' :: nat
  pid :: "string option"

text \<open>The result of the topology construction: the \<open>nodes\<close> array and the flat \<open>edges\<close> array.\<close>

record topology =
  nodes :: "node list"
  edges :: "nat list"

text \<open>The state of the node-building passes: \<open>nodes\<close>, \<open>dirMap\<close> and \<open>nextId\<close>.\<close>

record build =
  bnodes :: "node list"
  dirMap :: "string \<rightharpoonup> nat"
  nextId :: nat

datatype error =
  TypeError
  | GitHubAPI nat
  | RequestError
  | SyntaxError
  | WriteError

subsection \<open>Library functions the script calls\<close>

text \<open>
  \<open>path.dirname\<close> of Node (the POSIX variant): the loop walks from the last index down to
  index 1, skips trailing slashes and stops at the first slash after a non-slash.
\<close>

fun dirnameLoop :: "string \<Rightarrow> nat \<Rightarrow> bool \<Rightarrow> nat option" where
  "dirnameLoop s 0 matchedSlash = None"
| "dirnameLoop s (Suc i) matchedSlash =
     (if s ! Suc i = CHR ''/''
      then (if \<not> matchedSlash then Some (Suc i) else dirnameLoop s i matchedSlash)
      else dirnameLoop s i False)"

definition dirname :: "string \<Rightarrow> string" where
  "dirname s =
     (if length s = 0 then ''.''
      else let hasRoot = (s ! 0 = CHR ''/'') in
        case dirnameLoop s (length s - 1) True of
          None \<Rightarrow> (if hasRoot then ''/'' else ''.'')
        | Some end \<Rightarrow> (if hasRoot \<and> end = 1 then ''//'' else take end s))"

text \<open>\<open>String(n)\<close> for a non-negative integer: its decimal digits.\<close>

fun String' :: "nat \<Rightarrow> string" where
  "String' n =
     (if n < 10 then [''0123456789'' ! n]
      else String' (n div 10) @ [''0123456789'' ! (n mod 10)])"

declare String'.simps [simp del]

text \<open>
  \<open>Array.prototype.sort\<close> with a comparison function, as V8 (Node from version 11 on) sorts
  an array of fewer than 64 elements: \<open>CountAndMakeRun\<close> takes the run the array starts
  with, ascending (\<open>a[0] <= a[1] <= ...\<close>) or strictly descending and then reversed, and
  \<open>BinaryInsertionSort\<close> puts each remaining element into the sorted part at the place a
  binary search finds for it. For a longer array V8 merges runs made this way; the result is
  the same whenever the comparison function is consistent (both are the stable sort), and
  whenever the whole array is one run (it is left as it is).

  \<open>binarySearch\<close> is the inner loop of \<open>BinaryInsertionSort\<close>, \<open>insertPivot\<close> one round of
  its outer loop, \<open>extendRun\<close> the loop of \<open>CountAndMakeRun\<close>.
\<close>

function binarySearch :: "('a \<Rightarrow> 'a \<Rightarrow> int) \<Rightarrow> 'a \<Rightarrow> 'a list \<Rightarrow> nat \<Rightarrow> nat \<Rightarrow> nat" where
  "binarySearch cmp pivot ws left right =
     (if left < right
      then (let mid = left + (right - left) div 2 in
            if cmp pivot (ws ! mid) < 0 then binarySearch cmp pivot ws left mid
            else binarySearch cmp pivot ws (mid + 1) right)
      else left)"
  by pat_completeness auto

termination
  by (relation "measure (\<lambda>(cmp, pivot, ws, left, right). right - left)") auto

declare binarySearch.simps [simp del]

definition insertPivot :: "('a \<Rightarrow> 'a \<Rightarrow> int) \<Rightarrow> 'a list \<Rightarrow> 'a \<Rightarrow> 'a list" where
  "insertPivot cmp ws pivot =
     (let left = binarySearch cmp pivot ws 0 (length ws) in take left ws @ pivot # drop left ws)"

fun extendRun :: "('a \<Rightarrow> 'a \<Rightarrow> int) \<Rightarrow> bool \<Rightarrow> 'a \<Rightarrow> 'a list \<Rightarrow> 'a list \<times> 'a list" where
  "extendRun cmp isDescending previousElement [] = ([], [])"
| "extendRun cmp isDescending previousElement (currentElement # rest) =
     (if (if isDescending then cmp currentElement previousElement \<ge> 0
          else cmp currentElement previousElement < 0)
      then ([], currentElement # rest)
      else (case extendRun cmp isDescending currentElement rest of
              (run, rest') \<Rightarrow> (currentElement # run, rest')))"

definition countAndMakeRun :: "('a \<Rightarrow> 'a \<Rightarrow> int) \<Rightarrow> 'a list \<Rightarrow> 'a list \<times> 'a list" where
  "countAndMakeRun cmp xs =
     (case xs of
        elementHigh # elementLow # rest \<Rightarrow>
          (let isDescending = (cmp elementLow elementHigh < 0) in
           case extendRun cmp isDescending elementLow rest of
             (run, rest') \<Rightarrow>
               (if isDescending then rev (elementHigh # elementLow # run)
                else elementHigh # elementLow # run, rest'))
      | _ \<Rightarrow> (xs, []))"

definition arraySort :: "('a \<Rightarrow> 'a \<Rightarrow> int) \<Rightarrow> 'a list \<Rightarrow> 'a list" where
  "arraySort cmp xs =
     (case countAndMakeRun cmp xs of (run, rest) \<Rightarrow> foldl (insertPivot cmp) run rest)"

text \<open>
  \<open>String.prototype.localeCompare\<close> depends on the locale of the machine, so it is a
  parameter \<open>lc\<close> of the model. Two such comparisons serve for evaluating examples:
  \<open>codeUnitCompare\<close>, by code units, and \<open>caseFoldCompare\<close>, by code units after the
  letters \<open>A\<close> to \<open>Z\<close> are replaced by \<open>a\<close> to \<open>z\<close>; like a locale's comparison, the
  second puts \<open>app.js\<close> before \<open>LICENSE\<close>.
\<close>

fun codeUnitCompare :: "string \<Rightarrow> string \<Rightarrow> int" where
  "codeUnitCompare [] [] = 0"
| "codeUnitCompare [] (b # bs) = - 1"
| "codeUnitCompare (a # as) [] = 1"
| "codeUnitCompare (a # as) (b # bs) =
     (if a = b then codeUnitCompare as bs
      else if (of_char a :: nat) < of_char b then - 1 else 1)"

definition lowerCase :: "char \<Rightarrow> char" where
  "lowerCase c =
     (let n = (of_char c :: nat) in if 65 \<le> n \<and> n \<le> 90 then char_of (n + 32) else c)"

definition caseFoldCompare :: "string \<Rightarrow> string \<Rightarrow> int" where
  "caseFoldCompare a b = codeUnitCompare (map lowerCase a) (map lowerCase b)"

subsection \<open>Building the nodes\<close>

definition MAX_NODES :: nat where
  "MAX_NODES = 2500"

text \<open>The comparison function handed to \<open>sort\<close>: directories first, then by path.\<close>

definition compareEntries :: "(string \<Rightarrow> string \<Rightarrow> int) \<Rightarrow> entry \<Rightarrow> entry \<Rightarrow> int" where
  "compareEntries lc a b =
     (if type a \<noteq> type b then (if type a = ''tree'' then - 1 else 1)
      else lc (path a) (path b))"

text \<open>\<open>parentKey\<close>: the directory name of a path, with \<open>'.'\<close> replaced by the empty key.\<close>

definition parentKey :: "string \<Rightarrow> string" where
  "parentKey s = (let parentPath = dirname s in if parentPath = ''.'' then '''' else parentPath)"

text \<open>
  The \<open>pid\<close> of a new node: absent when the parent is unknown or is index 0, otherwise
  \<open>String(nodes[parentIdx].id)\<close>, which throws when \<open>nodes[parentIdx]\<close> is undefined.
\<close>

definition parentPid :: "node list \<Rightarrow> (string \<rightharpoonup> nat) \<Rightarrow> string \<Rightarrow> error + string option" where
  "parentPid ns dm s =
     (case dm (parentKey s) of
        None \<Rightarrow> Inr None
      | Some parentIdx \<Rightarrow>
          if parentIdx \<noteq> 0
          then (if parentIdx < length ns then Inr (Some (String' (id' (ns ! parentIdx))))
                else Inl TypeError)
          else Inr None)"

definition rootNode :: node where
  "rootNode = \<lparr>t = ''r'', p = ''/'', id' = 0, pid = None\<rparr>"

definition initial :: build where
  "initial = \<lparr>bnodes = [rootNode], dirMap = [[] \<mapsto> 0], nextId = 1\<rparr>"

text \<open>First pass: a node for every entry of type \<open>tree\<close>, entered into \<open>dirMap\<close>.\<close>

fun dirPass :: "entry list \<Rightarrow> build \<Rightarrow> error + build" where
  "dirPass [] s = Inr s"
| "dirPass (e # es) s =
     (if type e \<noteq> ''tree'' then dirPass es s
      else case parentPid (bnodes s) (dirMap s) (path e) of
        Inl err \<Rightarrow> Inl err
      | Inr pd \<Rightarrow>
          dirPass es
            \<lparr>bnodes = bnodes s @ [\<lparr>t = ''d'', p = path e, id' = nextId s, pid = pd\<rparr>],
             dirMap = (dirMap s)(path e \<mapsto> length (bnodes s)),
             nextId = nextId s + 1\<rparr>)"

text \<open>Second pass: a node for every entry of type \<open>blob\<close>.\<close>

fun filePass :: "entry list \<Rightarrow> build \<Rightarrow> error + build" where
  "filePass [] s = Inr s"
| "filePass (e # es) s =
     (if type e \<noteq> ''blob'' then filePass es s
      else case parentPid (bnodes s) (dirMap s) (path e) of
        Inl err \<Rightarrow> Inl err
      | Inr pd \<Rightarrow>
          filePass es
            \<lparr>bnodes = bnodes s @ [\<lparr>t = ''f'', p = path e, id' = nextId s, pid = pd\<rparr>],
             dirMap = dirMap s,
             nextId = nextId s + 1\<rparr>)"

text \<open>Sorting the entries and running both passes from the root node.\<close>

definition buildNodes :: "(string \<Rightarrow> string \<Rightarrow> int) \<Rightarrow> entry list \<Rightarrow> error + build" where
  "buildNodes lc tree =
     (let entries = arraySort (compareEntries lc) tree in
      case dirPass entries initial of
        Inl err \<Rightarrow> Inl err
      | Inr s \<Rightarrow> filePass entries s)"

subsection \<open>Edges and trimming\<close>

text \<open>The first edge loop: \<open>i\<close> and its parent index, for every \<open>i\<close> from 1 with a known parent.\<close>

definition buildEdges :: "node list \<Rightarrow> (string \<rightharpoonup> nat) \<Rightarrow> nat list" where
  "buildEdges ns dm =
     concat (map (\<lambda>i. case dm (parentKey (p (ns ! i))) of
                        None \<Rightarrow> []
                      | Some parentIdx \<Rightarrow> [i, parentIdx])
                 [1 ..< length ns])"

text \<open>The loop after trimming: the parent index must also be below the new length.\<close>

definition rebuildEdges :: "node list \<Rightarrow> (string \<rightharpoonup> nat) \<Rightarrow> nat list" where
  "rebuildEdges ns dm =
     concat (map (\<lambda>i. case dm (parentKey (p (ns ! i))) of
                        None \<Rightarrow> []
                      | Some parentIdx \<Rightarrow> if parentIdx < length ns then [i, parentIdx] else [])
                 [1 ..< length ns])"

definition trim :: "build \<Rightarrow> topology" where
  "trim s =
     (let ns = bnodes s; es = buildEdges ns (dirMap s) in
      if length ns > MAX_NODES
      then (let ns' = take MAX_NODES ns in \<lparr>nodes = ns', edges = rebuildEdges ns' (dirMap s)\<rparr>)
      else \<lparr>nodes = ns, edges = es\<rparr>)"

definition generate :: "(string \<Rightarrow> string \<Rightarrow> int) \<Rightarrow> entry list \<Rightarrow> error + topology" where
  "generate lc tree =
     (case buildNodes lc tree of Inl err \<Rightarrow> Inl err | Inr s \<Rightarrow> Inr (trim s))"

text \<open>The flat edge array read as pairs \<open>(childIndex, parentIndex)\<close>.\<close>

fun edgePairs :: "nat list \<Rightarrow> (nat \<times> nat) list" where
  "edgePairs (c # q # rest) = (c, q) # edgePairs rest"
| "edgePairs rest = []"

subsection \<open>The passes as folds\<close>

text \<open>
  Auxiliary notions for the proofs: the invariant \<open>wf\<close> of the passes, the \<open>pid\<close> a node gets
  from a directory map, one step of each pass without its failure branch, and the state
  \<open>final\<close> that both passes reach.
\<close>

definition wf :: "build \<Rightarrow> bool" where
  "wf s \<longleftrightarrow>
     nextId s = length (bnodes s) \<and>
     map id' (bnodes s) = [0 ..< length (bnodes s)] \<and>
     (\<forall>k j. dirMap s k = Some j \<longrightarrow> j < length (bnodes s))"

definition pidFor :: "(string \<rightharpoonup> nat) \<Rightarrow> string \<Rightarrow> string option" where
  "pidFor dm s =
     (case dm (parentKey s) of
        None \<Rightarrow> None
      | Some parentIdx \<Rightarrow> if parentIdx \<noteq> 0 then Some (String' parentIdx) else None)"

definition dirStep :: "build \<Rightarrow> entry \<Rightarrow> build" where
  "dirStep s e =
     \<lparr>bnodes = bnodes s @ [\<lparr>t = ''d'', p = path e, id' = nextId s, pid = pidFor (dirMap s) (path e)\<rparr>],
      dirMap = (dirMap s)(path e \<mapsto> length (bnodes s)),
      nextId = nextId s + 1\<rparr>"

definition fileStep :: "build \<Rightarrow> entry \<Rightarrow> build" where
  "fileStep s e =
     \<lparr>bnodes = bnodes s @ [\<lparr>t = ''f'', p = path e, id' = nextId s, pid = pidFor (dirMap s) (path e)\<rparr>],
      dirMap = dirMap s,
      nextId = nextId s + 1\<rparr>"

definition dirs :: "entry list \<Rightarrow> entry list" where
  "dirs es = filter (\<lambda>e. type e = ''tree'') es"

definition files :: "entry list \<Rightarrow> entry list" where
  "files es = filter (\<lambda>e. type e = ''blob'') es"

definition final :: "(string \<Rightarrow> string \<Rightarrow> int) \<Rightarrow> entry list \<Rightarrow> build" where
  "final lc tree =
     (let entries = arraySort (compareEntries lc) tree
      in foldl fileStep (foldl dirStep initial (dirs entries)) (files entries))"

subsection \<open>Notions for stating the properties\<close>

text \<open>
  The parent a node keeps in the rebuilt edge list: the index \<open>dirMap\<close> gives for the
  directory name of its path, when there is one and it is below the length of \<open>nodes\<close>.
\<close>

definition keptParent :: "node list \<Rightarrow> (string \<rightharpoonup> nat) \<Rightarrow> nat \<Rightarrow> nat option" where
  "keptParent ns dm i =
     (case dm (parentKey (p (ns ! i))) of
        None \<Rightarrow> None
      | Some parentIdx \<Rightarrow> if parentIdx < length ns then Some parentIdx else None)"

text \<open>A small tree, in the order an API might list it, and the topology the script makes of it.\<close>

definition sampleTree :: "entry list" where
  "sampleTree =
     [\<lparr>path = ''src/a.js'', type = ''blob''\<rparr>,
      \<lparr>path = ''src'', type = ''tree''\<rparr>,
      \<lparr>path = ''src/lib'', type = ''tree''\<rparr>,
      \<lparr>path = ''readme'', type = ''blob''\<rparr>,
      \<lparr>path = ''src/lib/x'', type = ''blob''\<rparr>]"

definition sampleTopology :: topology where
  "sampleTopology =
     \<lparr>nodes =
        [\<lparr>t = ''r'', p = ''/'', id' = 0, pid = None\<rparr>,
         \<lparr>t = ''d'', p = ''src'', id' = 1, pid = None\<rparr>,
         \<lparr>t = ''d'', p = ''src/lib'', id' = 2, pid = Some ''1''\<rparr>,
         \<lparr>t = ''f'', p = ''readme'', id' = 3, pid = None\<rparr>,
         \<lparr>t = ''f'', p = ''src/a.js'', id' = 4, pid = Some ''1''\<rparr>,
         \<lparr>t = ''f'', p = ''src/lib/x'', id' = 5, pid = Some ''2''\<rparr>],
      edges = [1, 0, 2, 1, 3, 0, 4, 1, 5, 2]\<rparr>"

text \<open>
  The listing of a repository with a submodule, in the order of its git tree, and the
  topology the script makes of it. The submodule \<open>vendor/dep\<close> is an entry of type
  \<open>commit\<close>: it gets no node.
\<close>

definition submoduleTree :: "entry list" where
  "submoduleTree =
     [\<lparr>path = ''.gitmodules'', type = ''blob''\<rparr>,
      \<lparr>path = ''readme'', type = ''blob''\<rparr>,
      \<lparr>path = ''src'', type = ''tree''\<rparr>,
      \<lparr>path = ''src/a.js'', type = ''blob''\<rparr>,
      \<lparr>path = ''src/lib'', type = ''tree''\<rparr>,
      \<lparr>path = ''src/lib/x'', type = ''blob''\<rparr>,
      \<lparr>path = ''vendor'', type = ''tree''\<rparr>,
      \<lparr>path = ''vendor/dep'', type = ''commit''\<rparr>]"

definition submoduleTopology :: topology where
  "submoduleTopology =
     \<lparr>nodes =
        [\<lparr>t = ''r'', p = ''/'', id' = 0, pid = None\<rparr>,
         \<lparr>t = ''d'', p = ''src'', id' = 1, pid = None\<rparr>,
         \<lparr>t = ''d'', p = ''src/lib'', id' = 2, pid = Some ''1''\<rparr>,
         \<lparr>t = ''d'', p = ''vendor'', id' = 3, pid = None\<rparr>,
         \<lparr>t = ''f'', p = ''.gitmodules'', id' = 4, pid = None\<rparr>,
         \<lparr>t = ''f'', p = ''readme'', id' = 5, pid = None\<rparr>,
         \<lparr>t = ''f'', p = ''src/a.js'', id' = 6, pid = Some ''1''\<rparr>,
         \<lparr>t = ''f'', p = ''src/lib/x'', id' = 7, pid = Some ''2''\<rparr>],
      edges = [1, 0, 2, 1, 3, 0, 4, 0, 5, 0, 6, 1, 7, 2]\<rparr>"

text \<open>
  A comparison function is consistent on a list when its signs are antisymmetric and
  ``not after'' is transitive there; \<open>sort\<close> orders an array only for such a function.
\<close>

definition consistentOn :: "'a list \<Rightarrow> ('a \<Rightarrow> 'a \<Rightarrow> int) \<Rightarrow> bool" where
  "consistentOn xs cmp \<longleftrightarrow>
     (\<forall>a \<in> set xs. \<forall>b \<in> set xs. (cmp a b < 0 \<longleftrightarrow> 0 < cmp b a)) \<and>
     (\<forall>a \<in> set xs. \<forall>b \<in> set xs. \<forall>c \<in> set xs. cmp a b \<le> 0 \<and> cmp b c \<le> 0 \<longrightarrow> cmp a c \<le> 0)"

text \<open>The locale comparison puts every listed directory before the directories directly in it.\<close>

definition parentsSortFirst :: "(string \<Rightarrow> string \<Rightarrow> int) \<Rightarrow> entry list \<Rightarrow> bool" where
  "parentsSortFirst lc tree \<longleftrightarrow>
     (\<forall>d \<in> set (dirs tree). \<forall>e \<in> set (dirs tree).
        path d = parentKey (path e) \<longrightarrow> lc (path d) (path e) < 0)"

text \<open>In a list of directory entries, a directory that is the parent of another comes before it.\<close>

definition parentsFirst :: "entry list \<Rightarrow> bool" where
  "parentsFirst ds \<longleftrightarrow>
     (\<forall>i < length ds. \<forall>j < length ds. path (ds ! j) = parentKey (path (ds ! i)) \<longrightarrow> j < i)"

text \<open>Invariants of the passes when parents come first.\<close>

definition ordered :: "build \<Rightarrow> bool" where
  "ordered s \<longleftrightarrow>
     (\<forall>i j. 0 < i \<and> i < length (bnodes s) \<and>
        dirMap s (parentKey (p (bnodes s ! i))) = Some j \<longrightarrow> j < i)"

definition pidsMatch :: "build \<Rightarrow> bool" where
  "pidsMatch s \<longleftrightarrow>
     (\<forall>i. 0 < i \<and> i < length (bnodes s) \<longrightarrow>
        pid (bnodes s ! i) = pidFor (dirMap s) (p (bnodes s ! i)))"

text \<open>Every entry that becomes a node has its directory name listed as a directory, or at top level.\<close>

definition parentsListed :: "entry list \<Rightarrow> bool" where
  "parentsListed tree \<longleftrightarrow>
     (\<forall>e \<in> set (dirs tree @ files tree). parentKey (path e) \<in> insert [] (path ` set (dirs tree)))"

text \<open>The node reached from node \<open>i\<close> by following \<open>n\<close> parent links of an edge list.\<close>

fun ancestor :: "nat list \<Rightarrow> nat \<Rightarrow> nat \<Rightarrow> nat option" where
  "ancestor es 0 i = Some i"
| "ancestor es (Suc n) i =
     (case map_of (edgePairs es) i of None \<Rightarrow> None | Some q \<Rightarrow> ancestor es n q)"

text \<open>2500 files \<open>x/a\<close>, \<open>x/aa\<close>, ... of a directory \<open>x\<close>.\<close>

definition orphanTree :: "entry list" where
  "orphanTree = map (\<lambda>k. \<lparr>path = ''x/'' @ replicate (Suc k) CHR ''a'', type = ''blob''\<rparr>) [0 ..< 2500]"

subsection \<open>Serialisation\<close>

text \<open>
  \<open>JSON.stringify\<close> of a string: the escapes of ECMAScript's \<open>QuoteJSONString\<close> on 8-bit code
  units, between double quotes. \<open>CHR 0x22\<close> is the double quote, \<open>CHR 0x5C\<close> the backslash.
\<close>

definition hex2 :: "nat \<Rightarrow> string" where
  "hex2 n = [''0123456789abcdef'' ! (n div 16), ''0123456789abcdef'' ! (n mod 16)]"

definition quoteChar :: "char \<Rightarrow> string" where
  "quoteChar c =
     (let n = (of_char c :: nat) in
      if n = 8 then [CHR 0x5C, CHR ''b'']
      else if n = 9 then [CHR 0x5C, CHR ''t'']
      else if n = 10 then [CHR 0x5C, CHR ''n'']
      else if n = 12 then [CHR 0x5C, CHR ''f'']
      else if n = 13 then [CHR 0x5C, CHR ''r'']
      else if n = 34 then [CHR 0x5C, CHR 0x22]
      else if n = 92 then [CHR 0x5C, CHR 0x5C]
      else if n < 32 then [CHR 0x5C, CHR ''u'', CHR ''0'', CHR ''0''] @ hex2 n
      else [c])"

definition quoteJSONString :: "string \<Rightarrow> string" where
  "quoteJSONString s = [CHR 0x22] @ concat (map quoteChar s) @ [CHR 0x22]"

text \<open>\<open>JSON.stringify(n)\<close> of a node: its properties in the order they were set.\<close>

definition stringify :: "node \<Rightarrow> string" where
  "stringify n =
     ''{'' @ quoteJSONString ''t'' @ '':'' @ quoteJSONString (t n) @
     '','' @ quoteJSONString ''p'' @ '':'' @ quoteJSONString (p n) @
     '','' @ quoteJSONString ''id'' @ '':'' @ String' (id' n) @
     (case pid n of
        None \<Rightarrow> []
      | Some x \<Rightarrow> '','' @ quoteJSONString ''pid'' @ '':'' @ quoteJSONString x) @
     ''}''"

text \<open>\<open>Array.prototype.join\<close> on strings.\<close>

fun join :: "string \<Rightarrow> string list \<Rightarrow> string" where
  "join sep [] = []"
| "join sep [x] = x"
| "join sep (x # y # ys) = x @ sep @ join sep (y # ys)"

text \<open>The contents of \<open>nodes.js\<close> and \<open>edges.js\<close>; \<open>CHR 0x0A\<close> is the newline.\<close>

definition nodesContent :: "node list \<Rightarrow> string" where
  "nodesContent ns =
     ''export const nodes = ['' @ [CHR 0x0A] @ ''  ['' @ [CHR 0x0A] @
     join ('','' @ [CHR 0x0A]) (map (\<lambda>n. ''    '' @ stringify n) ns) @
     [CHR 0x0A] @ ''  ]'' @ [CHR 0x0A] @ '']'' @ [CHR 0x0A]"

definition edgesContent :: "nat list \<Rightarrow> string" where
  "edgesContent es = ''export const edges = ['' @ join '', '' (map String' es) @ '']'' @ [CHR 0x0A]"

text \<open>What a run over a fetched tree would write: the two contents, or the error.\<close>

definition fileContents :: "(string \<Rightarrow> string \<Rightarrow> int) \<Rightarrow> entry list \<Rightarrow> error + string \<times> string" where
  "fileContents lc tree =
     (case generate lc tree of
        Inl err \<Rightarrow> Inl err
      | Inr out \<Rightarrow> Inr (nodesContent (nodes out), edgesContent (edges out)))"

text \<open>Only identical entries tie under the comparison function.\<close>

definition tiesAreEqual :: "'a list \<Rightarrow> ('a \<Rightarrow> 'a \<Rightarrow> int) \<Rightarrow> bool" where
  "tiesAreEqual xs cmp \<longleftrightarrow> (\<forall>a \<in> set xs. \<forall>b \<in> set xs. cmp a b = 0 \<longrightarrow> a = b)"

subsection \<open>The process\<close>

text \<open>
  The parsed body of a reply of the GitHub API, with the properties the script reads:
  \<open>default_branch\<close> of the repository, \<open>tree\<close> (written \<open>tree'\<close>) and \<open>truncated\<close> of the tree.
  A property that is absent is \<open>None\<close>.
\<close>

record body =
  default_branch :: "string option"
  tree' :: "entry list option"
  truncated :: bool

text \<open>
  What a request comes back with: an error of the connection, or a status code and the
  body, which is \<open>None\<close> when \<open>JSON.parse\<close> throws on it. The network is a function from the
  path of the URL to the reply.
\<close>

datatype reply = NetworkError | Reply nat "body option"

text \<open>
  What a run leaves behind: the exit status, the files written (name and contents, in
  order) and the paths of the requests sent to the API (in order). Console output is left
  out.
\<close>

record outcome =
  exitCode :: nat
  written :: "(string \<times> string) list"
  requested :: "string list"

text \<open>
  \<open>https.get\<close> throws at once, before anything is sent, when the path of the request holds
  a character outside \<open>\u0021\<close> to \<open>\u00ff\<close> (\<open>ERR_UNESCAPED_CHARACTERS\<close>, a \<open>TypeError\<close>);
  among 8-bit code units these are the codes up to \<open>0x20\<close>, the space and the control
  characters. \<open>asked\<close> is what a call of \<open>ghFetch\<close> adds to the requests made.
\<close>

definition invalidPath :: "string \<Rightarrow> bool" where
  "invalidPath urlPath \<longleftrightarrow> (\<exists>c \<in> set urlPath. (of_char c :: nat) < 0x21)"

definition asked :: "string \<Rightarrow> string list" where
  "asked urlPath = (if invalidPath urlPath then [] else [urlPath])"

text \<open>
  \<open>ghFetch\<close>: the throw of \<open>https.get\<close> inside the promise rejects it; it rejects on a
  connection error and on a status other than 200, otherwise resolves with the parsed body.
  A \<open>JSON.parse\<close> that throws ends the process with status 1 as well (uncaught exception),
  so it is an error here too.
\<close>

definition ghFetch :: "(string \<Rightarrow> reply) \<Rightarrow> string \<Rightarrow> error + body" where
  "ghFetch net urlPath =
     (if invalidPath urlPath then Inl TypeError
      else case net urlPath of
        NetworkError \<Rightarrow> Inl RequestError
      | Reply statusCode parsed \<Rightarrow>
          if statusCode \<noteq> 200 then Inl (GitHubAPI statusCode)
          else (case parsed of None \<Rightarrow> Inl SyntaxError | Some b \<Rightarrow> Inr b))"

text \<open>\<open>getDefaultBranch\<close>; an absent \<open>default_branch\<close> reads \<open>undefined\<close> in the next URL.\<close>

definition getDefaultBranch :: "(string \<Rightarrow> reply) \<Rightarrow> string \<Rightarrow> string \<Rightarrow> error + string" where
  "getDefaultBranch net owner repo =
     (case ghFetch net (''/repos/'' @ owner @ ''/'' @ repo) of
        Inl err \<Rightarrow> Inl err
      | Inr repoData \<Rightarrow>
          Inr (case default_branch repoData of None \<Rightarrow> ''undefined'' | Some b \<Rightarrow> b))"

text \<open>\<open>String.prototype.split\<close> with a one-character separator.\<close>

fun splitOn :: "char \<Rightarrow> string \<Rightarrow> string list" where
  "splitOn c [] = [[]]"
| "splitOn c (x # xs) =
     (if x = c then [] # splitOn c xs
      else (case splitOn c xs of [] \<Rightarrow> [[x]] | w # ws \<Rightarrow> (x # w) # ws))"

definition nodesFile :: string where
  "nodesFile = ''src/data/nodes.js''"

definition edgesFile :: string where
  "edgesFile = ''src/data/edges.js''"

text \<open>The exit through \<open>process.exit(1)\<close>, with what was requested and written until then.\<close>

definition failed :: "string list \<Rightarrow> (string \<times> string) list \<Rightarrow> outcome" where
  "failed reqs ws = \<lparr>exitCode = 1, written = ws, requested = reqs\<rparr>"

text \<open>
  The two \<open>writeFileSync\<close> calls at the end of \<open>main\<close>; \<open>writable\<close> tells whether a write to a
  file succeeds, and a write that throws ends the run through the \<open>catch\<close>.
\<close>

definition writeFiles :: "(string \<Rightarrow> bool) \<Rightarrow> string list \<Rightarrow> topology \<Rightarrow> outcome" where
  "writeFiles writable reqs out =
     (if \<not> writable nodesFile then failed reqs []
      else if \<not> writable edgesFile then failed reqs [(nodesFile, nodesContent (nodes out))]
      else \<lparr>exitCode = 0,
            written = [(nodesFile, nodesContent (nodes out)), (edgesFile, edgesContent (edges out))],
            requested = reqs\<rparr>)"

text \<open>
  \<open>main\<close> with its \<open>catch\<close>, in three stages. Last stage, from the fetched tree data on:
  reading \<open>treeData.tree\<close> (a \<open>TypeError\<close> when it is absent), building the topology, writing.
\<close>

definition buildAndWrite ::
  "(string \<Rightarrow> string \<Rightarrow> int) \<Rightarrow> (string \<Rightarrow> bool) \<Rightarrow> string list \<Rightarrow> body \<Rightarrow> outcome" where
  "buildAndWrite lc writable reqs treeData =
     (case tree' treeData of
        None \<Rightarrow> failed reqs []
      | Some tr \<Rightarrow>
          (case generate lc tr of
             Inl err \<Rightarrow> failed reqs []
           | Inr out \<Rightarrow> writeFiles writable reqs out))"

text \<open>Middle stage: fetching the tree of \<open>ref\<close>.\<close>

definition fetchTree ::
  "(string \<Rightarrow> string \<Rightarrow> int) \<Rightarrow> (string \<Rightarrow> reply) \<Rightarrow> (string \<Rightarrow> bool) \<Rightarrow>
     string \<Rightarrow> string list \<Rightarrow> string \<Rightarrow> outcome" where
  "fetchTree lc net writable repoUrl reqs ref =
     (let treeUrl = repoUrl @ ''/git/trees/'' @ ref @ ''?recursive=1'' in
      case ghFetch net treeUrl of
        Inl err \<Rightarrow> failed (reqs @ asked treeUrl) []
      | Inr treeData \<Rightarrow> buildAndWrite lc writable (reqs @ asked treeUrl) treeData)"

text \<open>First stage: \<open>branch || await getDefaultBranch()\<close>.\<close>

definition main ::
  "(string \<Rightarrow> string \<Rightarrow> int) \<Rightarrow> (string \<Rightarrow> reply) \<Rightarrow> (string \<Rightarrow> bool) \<Rightarrow>
     string \<Rightarrow> string \<Rightarrow> string option \<Rightarrow> outcome" where
  "main lc net writable owner repo branch =
     (let repoUrl = ''/repos/'' @ owner @ ''/'' @ repo in
      case (case branch of None \<Rightarrow> None | Some b \<Rightarrow> if b = [] then None else Some b) of
        Some ref \<Rightarrow> fetchTree lc net writable repoUrl [] ref
      | None \<Rightarrow>
          (case getDefaultBranch net owner repo of
             Inl err \<Rightarrow> failed (asked repoUrl) []
           | Inr ref \<Rightarrow> fetchTree lc net writable repoUrl (asked repoUrl) ref))"

text \<open>The script from its arguments \<open>process.argv.slice(2)\<close>: the two checks, then \<open>main\<close>.\<close>

definition script ::
  "(string \<Rightarrow> string \<Rightarrow> int) \<Rightarrow> (string \<Rightarrow> reply) \<Rightarrow> (string \<Rightarrow> bool) \<Rightarrow> string list \<Rightarrow> outcome" where
  "script lc net writable argv =
     (case argv of
        [] \<Rightarrow> failed [] []
      | repoArg # rest \<Rightarrow>
          if repoArg = [] then failed [] []
          else (case splitOn CHR ''/'' repoArg of
                  owner # repo # others \<Rightarrow>
                    if owner = [] \<or> repo = [] then failed [] []
                    else main lc net writable owner repo (case rest of [] \<Rightarrow> None | b # bs \<Rightarrow> Some b)
                | parts \<Rightarrow> failed [] []))"

text \<open>
  For the claims: the repository argument is missing (absent or empty), or malformed (no
  slash in it, or nothing before or after its first slash); a request fails (connection
  error or a status other than 200).
\<close>

definition repoArgMissing :: "string list \<Rightarrow> bool" where
  "repoArgMissing argv \<longleftrightarrow> (case argv of [] \<Rightarrow> True | repoArg # rest \<Rightarrow> repoArg = [])"

definition repoArgMalformed :: "string list \<Rightarrow> bool" where
  "repoArgMalformed argv \<longleftrightarrow>
     (case argv of
        [] \<Rightarrow> False
      | repoArg # rest \<Rightarrow>
          (case splitOn CHR ''/'' repoArg of
             owner # repo # others \<Rightarrow> owner = [] \<or> repo = []
           | parts \<Rightarrow> True))"

definition requestFails :: "(string \<Rightarrow> reply) \<Rightarrow> string \<Rightarrow> bool" where
  "requestFails net urlPath \<longleftrightarrow>
     (case net urlPath of NetworkError \<Rightarrow> True | Reply statusCode parsed \<Rightarrow> statusCode \<noteq> 200)"

text \<open>Two networks for examples: one that answers 404, one that serves the sample tree.\<close>

definition net404 :: "string \<Rightarrow> reply" where
  "net404 urlPath = Reply 404 None"

definition netSample :: "string \<Rightarrow> reply" where
  "netSample urlPath =
     Reply 200 (Some \<lparr>default_branch = Some ''main'', tree' = Some sampleTree, truncated = False\<rparr>)"

text \<open>A file system in which every write succeeds.\<close>

definition alwaysWritable :: "string \<Rightarrow> bool" where
  "alwaysWritable file = True"

text \<open>The 2500 files of \<open>orphanTree\<close> together with their directory \<open>x\<close>: 2502 nodes.\<close>

definition listedTree :: "entry list" where
  "listedTree = \<lparr>path = ''x'', type = ''tree''\<rparr> # orphanTree"

text \<open>
  A listing that starts with the file \<open>b\<close>, a submodule \<open>s\<close> and the file \<open>a\<close>, followed by
  2498 files \<open>c\<close>, \<open>cc\<close>, ...: 2501 nodes.
\<close>

definition unsortedTree :: "entry list" where
  "unsortedTree =
     \<lparr>path = ''b'', type = ''blob''\<rparr> # \<lparr>path = ''s'', type = ''commit''\<rparr> #
     \<lparr>path = ''a'', type = ''blob''\<rparr> #
     map (\<lambda>k. \<lparr>path = replicate (Suc k) CHR ''c'', type = ''blob''\<rparr>) [0 ..< 2498]"

section \<open>Properties\<close>

subsection \<open>The passes never fail\<close>

text \<open>
  The passes keep three facts: \<open>nextId\<close> is the length of \<open>nodes\<close>, every node's \<open>id\<close> is its
  index, and every index stored in \<open>dirMap\<close> is below the length of \<open>nodes\<close>. So
  \<open>nodes[parentIdx]\<close> is always defined, and each pass is a fold of a step that cannot fail.
\<close>

lemma wf_initial: "wf initial"
  by (simp add: wf_def initial_def rootNode_def)

lemma wf_id: "wf s \<Longrightarrow> j < length (bnodes s) \<Longrightarrow> id' (bnodes s ! j) = j"
proof -
  assume a: "wf s" and b: "j < length (bnodes s)"
  have "map id' (bnodes s) ! j = [0 ..< length (bnodes s)] ! j"
    using a by (simp add: wf_def)
  then show ?thesis using b by simp
qed

lemma parentPid_wf: "wf s \<Longrightarrow> parentPid (bnodes s) (dirMap s) x = Inr (pidFor (dirMap s) x)"
proof (cases "dirMap s (parentKey x)")
  case None
  then show ?thesis by (simp add: parentPid_def pidFor_def)
next
  case (Some j)
  assume w: "wf s"
  then have "j < length (bnodes s)" using Some by (simp add: wf_def)
  then show ?thesis using Some wf_id [OF w] by (simp add: parentPid_def pidFor_def)
qed

lemma wf_dirStep: "wf s \<Longrightarrow> wf (dirStep s e)"
  by (auto simp: wf_def dirStep_def less_Suc_eq split: if_splits)

lemma wf_fileStep: "wf s \<Longrightarrow> wf (fileStep s e)"
  by (auto simp: wf_def fileStep_def less_Suc_eq split: if_splits)

lemma wf_foldl_dirStep: "wf s \<Longrightarrow> wf (foldl dirStep s ds)"
  by (induction ds arbitrary: s) (simp_all add: wf_dirStep)

lemma wf_foldl_fileStep: "wf s \<Longrightarrow> wf (foldl fileStep s fs)"
  by (induction fs arbitrary: s) (simp_all add: wf_fileStep)

lemma dirPass_fold: "wf s \<Longrightarrow> dirPass es s = Inr (foldl dirStep s (dirs es))"
proof (induction es arbitrary: s)
  case Nil
  then show ?case by (simp add: dirs_def)
next
  case (Cons e es)
  show ?case
  proof (cases "type e = ''tree''")
    case True
    have "dirPass (e # es) s = dirPass es (dirStep s e)"
      using True parentPid_wf [OF Cons.prems] by (simp add: dirStep_def)
    also have "\<dots> = Inr (foldl dirStep (dirStep s e) (dirs es))"
      by (rule Cons.IH) (rule wf_dirStep [OF Cons.prems])
    finally show ?thesis using True by (simp add: dirs_def)
  next
    case False
    then show ?thesis using Cons.IH [OF Cons.prems] by (simp add: dirs_def)
  qed
qed

lemma filePass_fold: "wf s \<Longrightarrow> filePass es s = Inr (foldl fileStep s (files es))"
proof (induction es arbitrary: s)
  case Nil
  then show ?case by (simp add: files_def)
next
  case (Cons e es)
  show ?case
  proof (cases "type e = ''blob''")
    case True
    have "filePass (e # es) s = filePass es (fileStep s e)"
      using True parentPid_wf [OF Cons.prems] by (simp add: fileStep_def)
    also have "\<dots> = Inr (foldl fileStep (fileStep s e) (files es))"
      by (rule Cons.IH) (rule wf_fileStep [OF Cons.prems])
    finally show ?thesis using True by (simp add: files_def)
  next
    case False
    then show ?thesis using Cons.IH [OF Cons.prems] by (simp add: files_def)
  qed
qed

lemma buildNodes_final: "buildNodes lc tree = Inr (final lc tree)"
  by (simp add: buildNodes_def final_def Let_def dirPass_fold [OF wf_initial]
      filePass_fold [OF wf_foldl_dirStep [OF wf_initial]])

lemma wf_final: "wf (final lc tree)"
  by (simp add: final_def Let_def wf_foldl_fileStep wf_foldl_dirStep wf_initial)

lemma buildEdges_rebuild:
  assumes "\<forall>k j. dm k = Some j \<longrightarrow> j < length ns"
  shows "buildEdges ns dm = rebuildEdges ns dm"
proof -
  have "(case dm k of None \<Rightarrow> [] | Some j \<Rightarrow> [i, j]) =
        (case dm k of None \<Rightarrow> [] | Some j \<Rightarrow> if j < length ns then [i, j] else [])" for k i
    using assms by (cases "dm k") auto
  then show ?thesis by (simp add: buildEdges_def rebuildEdges_def)
qed

lemma trim_wf:
  assumes "wf s"
  shows "trim s = \<lparr>nodes = take MAX_NODES (bnodes s),
                   edges = rebuildEdges (take MAX_NODES (bnodes s)) (dirMap s)\<rparr>"
proof (cases "length (bnodes s) > MAX_NODES")
  case True
  then show ?thesis by (simp add: trim_def Let_def)
next
  case False
  have "buildEdges (bnodes s) (dirMap s) = rebuildEdges (bnodes s) (dirMap s)"
    using assms by (intro buildEdges_rebuild) (simp add: wf_def)
  then show ?thesis using False by (simp add: trim_def Let_def)
qed

lemma generate_final:
  "generate lc tree =
     Inr \<lparr>nodes = take MAX_NODES (bnodes (final lc tree)),
          edges = rebuildEdges (take MAX_NODES (bnodes (final lc tree))) (dirMap (final lc tree))\<rparr>"
  by (simp add: generate_def buildNodes_final trim_wf [OF wf_final])

subsection \<open>The shape of the node list\<close>

lemma length_foldl_dirStep: "length (bnodes (foldl dirStep s ds)) = length (bnodes s) + length ds"
  by (induction ds arbitrary: s) (simp_all add: dirStep_def)

lemma length_foldl_fileStep: "length (bnodes (foldl fileStep s fs)) = length (bnodes s) + length fs"
  by (induction fs arbitrary: s) (simp_all add: fileStep_def)

lemma paths_foldl_dirStep: "map p (bnodes (foldl dirStep s ds)) = map p (bnodes s) @ map path ds"
  by (induction ds arbitrary: s) (simp_all add: dirStep_def)

lemma paths_foldl_fileStep: "map p (bnodes (foldl fileStep s fs)) = map p (bnodes s) @ map path fs"
  by (induction fs arbitrary: s) (simp_all add: fileStep_def)

lemma kinds_foldl_dirStep:
  "map t (bnodes (foldl dirStep s ds)) = map t (bnodes s) @ replicate (length ds) ''d''"
  by (induction ds arbitrary: s) (simp_all add: dirStep_def replicate_app_Cons_same)

lemma kinds_foldl_fileStep:
  "map t (bnodes (foldl fileStep s fs)) = map t (bnodes s) @ replicate (length fs) ''f''"
  by (induction fs arbitrary: s) (simp_all add: fileStep_def replicate_app_Cons_same)

lemma bnodes_dirStep:
  "bnodes (dirStep s e) =
     bnodes s @ [\<lparr>t = ''d'', p = path e, id' = nextId s, pid = pidFor (dirMap s) (path e)\<rparr>]"
  by (simp add: dirStep_def)

lemma bnodes_fileStep:
  "bnodes (fileStep s e) =
     bnodes s @ [\<lparr>t = ''f'', p = path e, id' = nextId s, pid = pidFor (dirMap s) (path e)\<rparr>]"
  by (simp add: fileStep_def)

lemma extends_foldl_dirStep: "\<exists>xs. bnodes (foldl dirStep s ds) = bnodes s @ xs"
proof (induction ds arbitrary: s)
  case Nil
  then show ?case by simp
next
  case (Cons d ds)
  from Cons.IH [of "dirStep s d"] show ?case by (auto simp: bnodes_dirStep)
qed

lemma extends_foldl_fileStep: "\<exists>xs. bnodes (foldl fileStep s fs) = bnodes s @ xs"
proof (induction fs arbitrary: s)
  case Nil
  then show ?case by simp
next
  case (Cons d ds)
  from Cons.IH [of "fileStep s d"] show ?case by (auto simp: bnodes_fileStep)
qed

lemma dirMap_foldl_fileStep: "dirMap (foldl fileStep s fs) = dirMap s"
  by (induction fs arbitrary: s) (simp_all add: fileStep_def)

lemma dom_foldl_dirStep: "dom (dirMap (foldl dirStep s ds)) = dom (dirMap s) \<union> path ` set ds"
  by (induction ds arbitrary: s) (auto simp: dirStep_def)

lemma length_final:
  "length (bnodes (final lc tree)) =
     1 + length (dirs (arraySort (compareEntries lc) tree)) + length (files (arraySort (compareEntries lc) tree))"
  by (simp add: final_def Let_def length_foldl_fileStep length_foldl_dirStep initial_def)

lemma extends_final: "\<exists>xs. bnodes (final lc tree) = rootNode # xs"
proof -
  let ?es = "arraySort (compareEntries lc) tree"
  let ?s1 = "foldl dirStep initial (dirs ?es)"
  obtain xs where a: "bnodes ?s1 = bnodes initial @ xs"
    using extends_foldl_dirStep by blast
  obtain ys where b: "bnodes (foldl fileStep ?s1 (files ?es)) = bnodes ?s1 @ ys"
    using extends_foldl_fileStep by blast
  show ?thesis unfolding final_def Let_def b a by (simp add: initial_def)
qed

lemma paths_final:
  "map p (bnodes (final lc tree)) =
     ''/'' # map path (dirs (arraySort (compareEntries lc) tree))
           @ map path (files (arraySort (compareEntries lc) tree))"
  by (simp add: final_def Let_def paths_foldl_fileStep paths_foldl_dirStep initial_def rootNode_def)

lemma kinds_final:
  "map t (bnodes (final lc tree)) =
     ''r'' # replicate (length (dirs (arraySort (compareEntries lc) tree))) ''d''
           @ replicate (length (files (arraySort (compareEntries lc) tree))) ''f''"
  by (simp add: final_def Let_def kinds_foldl_fileStep kinds_foldl_dirStep initial_def rootNode_def)

lemma file_index:
  assumes "i < length (bnodes (final lc tree))" and "t (bnodes (final lc tree) ! i) = ''f''"
  shows "length (dirs (arraySort (compareEntries lc) tree)) < i"
proof (rule ccontr)
  let ?E = "arraySort (compareEntries lc) tree"
  assume "\<not> length (dirs ?E) < i"
  then have le: "i \<le> length (dirs ?E)" by simp
  have "map t (bnodes (final lc tree)) ! i =
      (''r'' # replicate (length (dirs ?E)) ''d'' @ replicate (length (files ?E)) ''f'') ! i"
    by (simp only: kinds_final)
  then have "t (bnodes (final lc tree) ! i) =
      (''r'' # replicate (length (dirs ?E)) ''d'' @ replicate (length (files ?E)) ''f'') ! i"
    using assms(1) by simp
  also have "\<dots> \<noteq> ''f''" using le by (cases i) (simp_all add: nth_append)
  finally show False using assms(2) by simp
qed

lemma file_kind:
  assumes "i < length (bnodes (final lc tree))"
    and "length (dirs (arraySort (compareEntries lc) tree)) < i"
  shows "t (bnodes (final lc tree) ! i) = ''f''"
proof -
  let ?E = "arraySort (compareEntries lc) tree"
  have "map t (bnodes (final lc tree)) ! i =
      (''r'' # replicate (length (dirs ?E)) ''d'' @ replicate (length (files ?E)) ''f'') ! i"
    by (simp only: kinds_final)
  then have "t (bnodes (final lc tree) ! i) =
      (''r'' # replicate (length (dirs ?E)) ''d'' @ replicate (length (files ?E)) ''f'') ! i"
    using assms(1) by simp
  also have "\<dots> = ''f''"
    using assms by (cases i) (simp_all add: nth_append length_final)
  finally show ?thesis .
qed

subsection \<open>The edge list as pairs\<close>

lemma edgePairs_rebuildEdges:
  "edgePairs (rebuildEdges ns dm) =
     List.map_filter (\<lambda>i. map_option (Pair i) (keptParent ns dm i)) [1 ..< length ns]"
proof -
  have "edgePairs (concat (map (\<lambda>i. case dm (parentKey (p (ns ! i))) of
                        None \<Rightarrow> []
                      | Some parentIdx \<Rightarrow> if parentIdx < length ns then [i, parentIdx] else []) xs))
        = List.map_filter (\<lambda>i. map_option (Pair i) (keptParent ns dm i)) xs" for xs
    by (induction xs) (auto simp: keptParent_def List.map_filter_simps split: option.splits)
  then show ?thesis by (simp add: rebuildEdges_def)
qed

lemma in_edgePairs_rebuildEdges:
  "(c, q) \<in> set (edgePairs (rebuildEdges ns dm)) \<longleftrightarrow>
     1 \<le> c \<and> c < length ns \<and> keptParent ns dm c = Some q"
  by (force simp: edgePairs_rebuildEdges List.map_filter_def)

lemma keptParent_less: "keptParent ns dm c = Some q \<Longrightarrow> q < length ns"
  by (auto simp: keptParent_def split: option.splits if_splits)

lemma rebuildEdges_bounds:
  "(c, q) \<in> set (edgePairs (rebuildEdges ns dm)) \<Longrightarrow> q < length ns \<and> c < length ns"
  by (auto simp: in_edgePairs_rebuildEdges dest: keptParent_less)

lemma nochild_rebuildEdges:
  "keptParent ns dm i = None \<Longrightarrow> i \<notin> fst ` set (edgePairs (rebuildEdges ns dm))"
  using in_edgePairs_rebuildEdges [of i _ ns dm] by force

lemma set_rebuildEdges: "x \<in> set (rebuildEdges ns dm) \<Longrightarrow> x < length ns"
  by (auto simp: rebuildEdges_def split: option.splits if_splits)

lemma length_rebuildEdges: "length (rebuildEdges ns dm) = 2 * length (edgePairs (rebuildEdges ns dm))"
proof -
  have "length (concat (map (\<lambda>i. case dm (parentKey (p (ns ! i))) of
                        None \<Rightarrow> []
                      | Some parentIdx \<Rightarrow> if parentIdx < length ns then [i, parentIdx] else []) xs))
        = 2 * length (List.map_filter (\<lambda>i. map_option (Pair i) (keptParent ns dm i)) xs)" for xs
    by (induction xs) (auto simp: keptParent_def List.map_filter_simps split: option.splits)
  then have "length (rebuildEdges ns dm) =
      2 * length (List.map_filter (\<lambda>i. map_option (Pair i) (keptParent ns dm i)) [1 ..< length ns])"
    by (simp add: rebuildEdges_def)
  then show ?thesis by (simp only: edgePairs_rebuildEdges)
qed

lemma children_rebuildEdges:
  "map fst (edgePairs (rebuildEdges ns dm)) =
     filter (\<lambda>i. keptParent ns dm i \<noteq> None) [1 ..< length ns]"
proof -
  have "map fst (List.map_filter (\<lambda>i. map_option (Pair i) (keptParent ns dm i)) xs) =
        filter (\<lambda>i. keptParent ns dm i \<noteq> None) xs" for xs
    by (induction xs) (auto simp: List.map_filter_simps split: option.splits)
  then show ?thesis by (simp add: edgePairs_rebuildEdges)
qed

lemma count_rebuildEdges:
  "length (edgePairs (rebuildEdges ns dm)) \<le> length ns - 1"
  "length (edgePairs (rebuildEdges ns dm)) < length ns - 1 \<longleftrightarrow>
     (\<exists>i. 0 < i \<and> i < length ns \<and> keptParent ns dm i = None)"
proof -
  let ?P = "\<lambda>i. keptParent ns dm i \<noteq> None"
  have l: "length (edgePairs (rebuildEdges ns dm)) = length (filter ?P [1 ..< length ns])"
    using children_rebuildEdges [of ns dm] by (metis length_map)
  show "length (edgePairs (rebuildEdges ns dm)) \<le> length ns - 1"
    unfolding l using length_filter_le [of ?P "[1 ..< length ns]"] by simp
  show "length (edgePairs (rebuildEdges ns dm)) < length ns - 1 \<longleftrightarrow>
     (\<exists>i. 0 < i \<and> i < length ns \<and> keptParent ns dm i = None)"
  proof
    assume "length (edgePairs (rebuildEdges ns dm)) < length ns - 1"
    then have "filter ?P [1 ..< length ns] \<noteq> [1 ..< length ns]"
      unfolding l by auto
    then have "\<exists>i \<in> set [1 ..< length ns]. \<not> ?P i"
      by (simp only: filter_id_conv) blast
    then obtain i where "1 \<le> i" "i < length ns" "keptParent ns dm i = None" by auto
    then have "0 < i \<and> i < length ns \<and> keptParent ns dm i = None" by simp
    then show "\<exists>i. 0 < i \<and> i < length ns \<and> keptParent ns dm i = None" ..
  next
    assume "\<exists>i. 0 < i \<and> i < length ns \<and> keptParent ns dm i = None"
    then obtain i where i: "0 < i" "i < length ns" "keptParent ns dm i = None" by blast
    have "i \<in> set [1 ..< length ns]" using i by simp
    moreover have "\<not> ?P i" using i by simp
    ultimately have "length (filter ?P [1 ..< length ns]) < length [1 ..< length ns]"
      by (rule length_filter_less)
    then show "length (edgePairs (rebuildEdges ns dm)) < length ns - 1"
      unfolding l by simp
  qed
qed

lemma keptParent_take:
  "i < length (take m ns) \<Longrightarrow>
     keptParent (take m ns) dm i =
       (case dm (parentKey (p (ns ! i))) of
          None \<Rightarrow> None
        | Some j \<Rightarrow> if j < length (take m ns) then Some j else None)"
  by (simp add: keptParent_def)

lemma keptParent_before:
  assumes "\<forall>j. dm (parentKey (p (ns ! i))) = Some j \<longrightarrow> j < i" and "i < length (take m ns)"
  shows "keptParent (take m ns) dm i = dm (parentKey (p (ns ! i)))"
proof (cases "dm (parentKey (p (ns ! i)))")
  case None
  then show ?thesis using assms(2) by (simp add: keptParent_take del: length_take)
next
  case (Some j)
  then have "j < i" using assms(1) by simp
  then have "j < length (take m ns)" using assms(2) by linarith
  then show ?thesis using Some assms(2) by (simp add: keptParent_take del: length_take)
qed

lemma keptParent_full:
  assumes "wf s"
  shows "keptParent (bnodes s) (dirMap s) i = dirMap s (parentKey (p (bnodes s ! i)))"
proof (cases "dirMap s (parentKey (p (bnodes s ! i)))")
  case None
  then show ?thesis by (simp add: keptParent_def)
next
  case (Some j)
  then have "j < length (bnodes s)" using assms by (simp add: wf_def)
  then show ?thesis using Some by (simp add: keptParent_def)
qed

lemma buildEdges_final:
  "buildEdges (bnodes (final lc tree)) (dirMap (final lc tree)) =
     rebuildEdges (bnodes (final lc tree)) (dirMap (final lc tree))"
  using wf_final [of lc tree] by (intro buildEdges_rebuild) (simp add: wf_def)

lemma in_raw_edges:
  "(c, q) \<in> set (edgePairs (buildEdges (bnodes (final lc tree)) (dirMap (final lc tree)))) \<longleftrightarrow>
     1 \<le> c \<and> c < length (bnodes (final lc tree)) \<and>
     dirMap (final lc tree) (parentKey (p (bnodes (final lc tree) ! c))) = Some q"
  by (simp only: buildEdges_final in_edgePairs_rebuildEdges keptParent_full [OF wf_final])

lemma in_kept_edges:
  "(c, q) \<in> set (edgePairs (rebuildEdges (take m (bnodes s)) (dirMap s))) \<longleftrightarrow>
     1 \<le> c \<and> c < length (take m (bnodes s)) \<and> q < length (take m (bnodes s)) \<and>
     dirMap s (parentKey (p (bnodes s ! c))) = Some q"
proof -
  have "keptParent (take m (bnodes s)) (dirMap s) c = Some q \<longleftrightarrow>
      q < length (take m (bnodes s)) \<and> dirMap s (parentKey (p (bnodes s ! c))) = Some q"
    if "c < length (take m (bnodes s))"
    using that by (auto simp: keptParent_take simp del: length_take split: option.splits if_splits)
  then show ?thesis unfolding in_edgePairs_rebuildEdges by blast
qed

subsection \<open>Examples\<close>

lemma generate_sample: "generate codeUnitCompare sampleTree = Inr sampleTopology"
  by code_simp

lemma generate_submodule: "generate codeUnitCompare submoduleTree = Inr submoduleTopology"
  by code_simp

subsection \<open>Claims about every generated topology\<close>

text \<open>
  C3. Generation always succeeds, and in its result the node indices are dense: the node list
  is not empty, its first node is the root node \<open>{t: 'r', p: '/', id: 0}\<close>, and the \<open>id\<close> of
  every node is its position in the list, so the ids are \<open>0, 1, ..., N - 1\<close> without gap or
  duplicate. This holds for every comparison function and every fetched tree, trimmed or not.
\<close>

theorem node_ids_dense:
  "\<exists>out. generate lc tree = Inr out \<and> nodes out \<noteq> [] \<and> nodes out ! 0 = rootNode \<and>
     map id' (nodes out) = [0 ..< length (nodes out)]"
proof -
  let ?ns = "bnodes (final lc tree)"
  obtain xs where r: "?ns = rootNode # xs"
    using extends_final by blast
  have ids: "map id' ?ns = [0 ..< length ?ns]"
    using wf_final [of lc tree] by (simp add: wf_def)
  have "map id' (take MAX_NODES ?ns) = take MAX_NODES (map id' ?ns)"
    by (simp add: take_map)
  also have "\<dots> = take MAX_NODES [0 ..< length ?ns]"
    by (simp only: ids)
  also have "\<dots> = [0 ..< length (take MAX_NODES ?ns)]"
    by (simp add: take_upt min_def)
  finally have dense: "map id' (take MAX_NODES ?ns) = [0 ..< length (take MAX_NODES ?ns)]" .
  have "take MAX_NODES ?ns \<noteq> [] \<and> take MAX_NODES ?ns ! 0 = rootNode"
    by (simp add: r MAX_NODES_def)
  with dense show ?thesis by (simp add: generate_final)
qed

text \<open>
  C6. In the result of generation, every pair of the edge list refers to nodes of the final
  node list: the parent index (and the child index) of every edge is below the number of
  nodes written, whether or not the list was trimmed.
\<close>

theorem edges_refer_to_kept_nodes:
  "\<exists>out. generate lc tree = Inr out \<and>
     (\<forall>(c, q) \<in> set (edgePairs (edges out)). q < length (nodes out) \<and> c < length (nodes out))"
proof -
  let ?ns = "take MAX_NODES (bnodes (final lc tree))"
  have "\<forall>(c, q) \<in> set (edgePairs (rebuildEdges ?ns (dirMap (final lc tree)))).
          q < length ?ns \<and> c < length ?ns"
    using rebuildEdges_bounds by blast
  then show ?thesis by (simp add: generate_final del: length_take)
qed

text \<open>On the sample tree the edge \<open>(5, 2)\<close> is such a pair.\<close>

theorem edges_refer_to_kept_nodes_witness:
  "\<exists>out. generate codeUnitCompare sampleTree = Inr out \<and>
     (5, 2) \<in> set (edgePairs (edges out)) \<and> (2::nat) < length (nodes out) \<and> (5::nat) < length (nodes out)"
proof -
  from edges_refer_to_kept_nodes [of codeUnitCompare sampleTree]
  obtain out where g: "generate codeUnitCompare sampleTree = Inr out"
    and a: "\<forall>(c, q) \<in> set (edgePairs (edges out)). q < length (nodes out) \<and> c < length (nodes out)"
    by blast
  from g have "out = sampleTopology" by (simp add: generate_sample)
  then have m: "(5, 2) \<in> set (edgePairs (edges out))" by (simp add: sampleTopology_def)
  with a have "2 < length (nodes out) \<and> 5 < length (nodes out)" by blast
  with g m show ?thesis by blast
qed

subsection \<open>Sorting\<close>

text \<open>
  The sort returns a rearrangement of the array, whatever the comparison function. It
  returns the array in ascending order of a relation \<open>R\<close> whenever \<open>R\<close> is transitive on
  the elements and the answers of the comparison function agree with it: an answer below
  0 for \<open>(x, e)\<close> means \<open>R x e\<close>, any other answer means \<open>R e x\<close>.
\<close>

lemma extendRun_append: "extendRun cmp d prev xs = (run, rest) \<Longrightarrow> run @ rest = xs"
  by (induction xs arbitrary: prev run rest) (auto split: if_splits prod.splits)

lemma mset_countAndMakeRun:
  "countAndMakeRun cmp xs = (run, rest) \<Longrightarrow> mset run + mset rest = mset xs"
  by (auto simp: countAndMakeRun_def Let_def split: list.splits prod.splits if_splits
      dest!: extendRun_append)

lemma mset_insertPivot: "mset (insertPivot cmp ws x) = add_mset x (mset ws)"
proof -
  have "mset (take n ws @ x # drop n ws) = add_mset x (mset (take n ws @ drop n ws))" for n
    by (simp del: append_take_drop_id)
  then show ?thesis by (simp add: insertPivot_def Let_def)
qed

lemma mset_foldl_insertPivot: "mset (foldl (insertPivot cmp) ws xs) = mset ws + mset xs"
  by (induction xs arbitrary: ws) (simp_all add: mset_insertPivot)

lemma mset_arraySort: "mset (arraySort cmp xs) = mset xs"
proof -
  obtain run rest where c: "countAndMakeRun cmp xs = (run, rest)" by (cases "countAndMakeRun cmp xs")
  then show ?thesis
    using mset_countAndMakeRun [OF c] by (simp add: arraySort_def mset_foldl_insertPivot)
qed

lemma set_arraySort: "set (arraySort cmp xs) = set xs"
  by (metis mset_arraySort set_mset_mset)

lemma length_arraySort: "length (arraySort cmp xs) = length xs"
  by (metis mset_arraySort size_mset)

lemma set_insertPivot: "set (insertPivot cmp ws x) = insert x (set ws)"
  by (metis mset_insertPivot set_mset_add_mset_insert set_mset_mset)

lemma binarySearch_bounds:
  "left \<le> right \<Longrightarrow> right \<le> length ws \<Longrightarrow>
   (0 < left \<longrightarrow> \<not> cmp x (ws ! (left - 1)) < 0) \<Longrightarrow>
   (right < length ws \<longrightarrow> cmp x (ws ! right) < 0) \<Longrightarrow>
   left \<le> binarySearch cmp x ws left right \<and> binarySearch cmp x ws left right \<le> right \<and>
   (0 < binarySearch cmp x ws left right \<longrightarrow>
      \<not> cmp x (ws ! (binarySearch cmp x ws left right - 1)) < 0) \<and>
   (binarySearch cmp x ws left right < length ws \<longrightarrow>
      cmp x (ws ! binarySearch cmp x ws left right) < 0)"
proof (induction cmp x ws left right rule: binarySearch.induct)
  case (1 cmp pivot ws left right)
  show ?case
  proof (cases "left < right")
    case False
    then have "binarySearch cmp pivot ws left right = left"
      by (simp add: binarySearch.simps)
    then show ?thesis using "1.prems" False by simp
  next
    case True
    define mid where "mid = left + (right - left) div 2"
    have m: "left \<le> mid" "mid < right" using True unfolding mid_def by auto
    show ?thesis
    proof (cases "cmp pivot (ws ! mid) < 0")
      case lt: True
      have e: "binarySearch cmp pivot ws left right = binarySearch cmp pivot ws left mid"
        using True lt by (subst binarySearch.simps) (simp add: mid_def Let_def)
      have "left \<le> binarySearch cmp pivot ws left mid \<and> binarySearch cmp pivot ws left mid \<le> mid \<and>
         (0 < binarySearch cmp pivot ws left mid \<longrightarrow>
            \<not> cmp pivot (ws ! (binarySearch cmp pivot ws left mid - 1)) < 0) \<and>
         (binarySearch cmp pivot ws left mid < length ws \<longrightarrow>
            cmp pivot (ws ! binarySearch cmp pivot ws left mid) < 0)"
        using "1.IH"(1) [OF True mid_def lt] m "1.prems" lt by simp
      then show ?thesis unfolding e using m by auto
    next
      case ge: False
      have e: "binarySearch cmp pivot ws left right = binarySearch cmp pivot ws (mid + 1) right"
        using True ge by (subst binarySearch.simps) (simp add: mid_def Let_def)
      have "mid + 1 \<le> binarySearch cmp pivot ws (mid + 1) right \<and>
         binarySearch cmp pivot ws (mid + 1) right \<le> right \<and>
         (0 < binarySearch cmp pivot ws (mid + 1) right \<longrightarrow>
            \<not> cmp pivot (ws ! (binarySearch cmp pivot ws (mid + 1) right - 1)) < 0) \<and>
         (binarySearch cmp pivot ws (mid + 1) right < length ws \<longrightarrow>
            cmp pivot (ws ! binarySearch cmp pivot ws (mid + 1) right) < 0)"
        using "1.IH"(2) [OF True mid_def ge] m "1.prems" ge by simp
      then show ?thesis unfolding e using m by auto
    qed
  qed
qed

lemma sorted_wrt_insert_at:
  assumes s: "sorted_wrt R ws" and n: "n \<le> length ws"
    and before: "0 < n \<longrightarrow> R (ws ! (n - 1)) x" and after: "n < length ws \<longrightarrow> R x (ws ! n)"
    and tr: "\<And>a b c. a \<in> insert x (set ws) \<Longrightarrow> b \<in> insert x (set ws) \<Longrightarrow>
               c \<in> insert x (set ws) \<Longrightarrow> R a b \<Longrightarrow> R b c \<Longrightarrow> R a c"
  shows "sorted_wrt R (take n ws @ x # drop n ws)"
proof -
  have nth: "R (ws ! i) (ws ! j)" if "i < j" "j < length ws" for i j
    using s that by (simp add: sorted_wrt_iff_nth_less)
  have l: "R a x" if a: "a \<in> set (take n ws)" for a
  proof -
    from a obtain i where i: "i < n" "i < length ws" "a = ws ! i"
      by (auto simp: in_set_conv_nth)
    then have n0: "0 < n" by simp
    show ?thesis
    proof (cases "i = n - 1")
      case True
      then show ?thesis using before n0 i by simp
    next
      case False
      then have "R (ws ! i) (ws ! (n - 1))" using nth [of i "n - 1"] i n by simp
      moreover have "R (ws ! (n - 1)) x" using before n0 by simp
      moreover have "ws ! i \<in> insert x (set ws)" "ws ! (n - 1) \<in> insert x (set ws)"
        using i n n0 by simp_all
      ultimately show ?thesis using tr [of "ws ! i" "ws ! (n - 1)" x] i by simp
    qed
  qed
  have r: "R x b" if b: "b \<in> set (drop n ws)" for b
  proof -
    from b obtain i where i: "i < length ws - n" "b = ws ! (n + i)"
      by (auto simp: in_set_conv_nth)
    define k where "k = i"
    have k: "n + k < length ws" "b = ws ! (n + k)" using i unfolding k_def by simp_all
    show ?thesis
    proof (cases "k = 0")
      case True
      then show ?thesis using after k by simp
    next
      case False
      then have "R (ws ! n) (ws ! (n + k))" using nth [of n "n + k"] k by simp
      moreover have "R x (ws ! n)" using after k by simp
      moreover have "ws ! n \<in> insert x (set ws)" "ws ! (n + k) \<in> insert x (set ws)"
        using k by simp_all
      ultimately show ?thesis using tr [of x "ws ! n" "ws ! (n + k)"] k by simp
    qed
  qed
  have "sorted_wrt R (take n ws @ drop n ws)" using s by simp
  then have m: "sorted_wrt R (take n ws)" "sorted_wrt R (drop n ws)"
    "\<forall>a \<in> set (take n ws). \<forall>b \<in> set (drop n ws). R a b"
    unfolding sorted_wrt_append by simp_all
  show ?thesis
    unfolding sorted_wrt_append using m l r by simp
qed

lemma sorted_insertPivot:
  assumes tr: "\<And>a b c. a \<in> S \<Longrightarrow> b \<in> S \<Longrightarrow> c \<in> S \<Longrightarrow> R a b \<Longrightarrow> R b c \<Longrightarrow> R a c"
    and af: "\<And>x e. x \<in> S \<Longrightarrow> e \<in> S \<Longrightarrow> \<not> cmp x e < 0 \<Longrightarrow> R e x"
    and be: "\<And>x e. x \<in> S \<Longrightarrow> e \<in> S \<Longrightarrow> cmp x e < 0 \<Longrightarrow> R x e"
    and s: "sorted_wrt R ws" and sub: "set ws \<subseteq> S" and x: "x \<in> S"
  shows "sorted_wrt R (insertPivot cmp ws x)"
proof -
  define n where "n = binarySearch cmp x ws 0 (length ws)"
  have b: "n \<le> length ws" "0 < n \<longrightarrow> \<not> cmp x (ws ! (n - 1)) < 0"
    "n < length ws \<longrightarrow> cmp x (ws ! n) < 0"
    using binarySearch_bounds [of 0 "length ws" ws cmp x] unfolding n_def by simp_all
  have "sorted_wrt R (take n ws @ x # drop n ws)"
  proof (rule sorted_wrt_insert_at [OF s b(1)])
    show "0 < n \<longrightarrow> R (ws ! (n - 1)) x"
    proof
      assume n0: "0 < n"
      then have "ws ! (n - 1) \<in> S" using sub b(1) by (simp add: subset_iff)
      then show "R (ws ! (n - 1)) x" using af [OF x] b(2) n0 by simp
    qed
    show "n < length ws \<longrightarrow> R x (ws ! n)"
    proof
      assume nl: "n < length ws"
      then have "ws ! n \<in> S" using sub by (simp add: subset_iff)
      then show "R x (ws ! n)" using be [OF x] b(3) nl by simp
    qed
    show "R a c" if "a \<in> insert x (set ws)" "b \<in> insert x (set ws)" "c \<in> insert x (set ws)"
      "R a b" "R b c" for a b c
    proof -
      have "a \<in> S" "b \<in> S" "c \<in> S" using that(1-3) sub x by auto
      then show ?thesis using tr that(4,5) by blast
    qed
  qed
  then show ?thesis by (simp add: insertPivot_def Let_def n_def)
qed

lemma sorted_foldl_insertPivot:
  assumes tr: "\<And>a b c. a \<in> S \<Longrightarrow> b \<in> S \<Longrightarrow> c \<in> S \<Longrightarrow> R a b \<Longrightarrow> R b c \<Longrightarrow> R a c"
    and af: "\<And>x e. x \<in> S \<Longrightarrow> e \<in> S \<Longrightarrow> \<not> cmp x e < 0 \<Longrightarrow> R e x"
    and be: "\<And>x e. x \<in> S \<Longrightarrow> e \<in> S \<Longrightarrow> cmp x e < 0 \<Longrightarrow> R x e"
  shows "sorted_wrt R ws \<Longrightarrow> set ws \<subseteq> S \<Longrightarrow> set xs \<subseteq> S \<Longrightarrow>
           sorted_wrt R (foldl (insertPivot cmp) ws xs)"
proof (induction xs arbitrary: ws)
  case Nil
  then show ?case by simp
next
  case (Cons x xs)
  have "sorted_wrt R (insertPivot cmp ws x)"
  proof (rule sorted_insertPivot [where S = S and R = R and cmp = cmp])
    show "R a c" if "a \<in> S" "b \<in> S" "c \<in> S" "R a b" "R b c" for a b c
      using that by (rule tr)
    show "R e y" if "y \<in> S" "e \<in> S" "\<not> cmp y e < 0" for y e using that by (rule af)
    show "R y e" if "y \<in> S" "e \<in> S" "cmp y e < 0" for y e using that by (rule be)
    show "sorted_wrt R ws" using Cons.prems by simp
    show "set ws \<subseteq> S" using Cons.prems by simp
    show "x \<in> S" using Cons.prems by simp
  qed
  moreover have "set (insertPivot cmp ws x) \<subseteq> S"
    using Cons.prems by (simp add: set_insertPivot)
  ultimately show ?case using Cons.IH Cons.prems by simp
qed

lemma extendRun_successively:
  "extendRun cmp d prev xs = (run, rest) \<Longrightarrow>
     successively (\<lambda>a b. if d then cmp b a < 0 else \<not> cmp b a < 0) (prev # run)"
  by (induction xs arbitrary: prev run rest) (auto split: if_splits prod.splits)

lemma sorted_countAndMakeRun:
  assumes tr: "\<And>a b c. a \<in> S \<Longrightarrow> b \<in> S \<Longrightarrow> c \<in> S \<Longrightarrow> R a b \<Longrightarrow> R b c \<Longrightarrow> R a c"
    and af: "\<And>x e. x \<in> S \<Longrightarrow> e \<in> S \<Longrightarrow> \<not> cmp x e < 0 \<Longrightarrow> R e x"
    and be: "\<And>x e. x \<in> S \<Longrightarrow> e \<in> S \<Longrightarrow> cmp x e < 0 \<Longrightarrow> R x e"
    and sub: "set xs \<subseteq> S" and c: "countAndMakeRun cmp xs = (run, rest)"
  shows "sorted_wrt R run"
proof -
  have m: "mset run + mset rest = mset xs" by (rule mset_countAndMakeRun [OF c])
  have "set_mset (mset run) \<subseteq> set_mset (mset xs)" unfolding m [symmetric] by simp
  then have rs: "set run \<subseteq> S" using sub by simp
  have suc: "successively R run"
  proof (cases xs)
    case Nil
    then show ?thesis using c by (simp add: countAndMakeRun_def)
  next
    case (Cons h ys)
    show ?thesis
    proof (cases ys)
      case Nil
      then show ?thesis using c Cons by (auto simp: countAndMakeRun_def)
    next
      case (Cons l zs)
      define d where "d = (cmp l h < 0)"
      define Q where "Q = (\<lambda>a b. if d then cmp b a < 0 else \<not> cmp b a < 0)"
      obtain r rest' where e: "extendRun cmp d l zs = (r, rest')" by (cases "extendRun cmp d l zs")
      have "successively Q (l # r)" unfolding Q_def by (rule extendRun_successively [OF e])
      moreover have "Q h l" unfolding Q_def d_def by simp
      ultimately have q: "successively Q (h # l # r)" by simp
      have run: "run = (if d then rev (h # l # r) else h # l # r)"
        using c \<open>xs = h # ys\<close> Cons e by (simp add: countAndMakeRun_def d_def Let_def)
      have mem: "set (h # l # r) \<subseteq> S" using rs unfolding run by (simp split: if_splits)
      show ?thesis
      proof (cases d)
        case True
        have "successively (\<lambda>a b. R b a) (h # l # r)"
        proof (rule successively_mono [OF q])
          fix a b
          assume "a \<in> set (h # l # r)" "b \<in> set (h # l # r)" "Q a b"
          then show "R b a" using be [of b a] mem True unfolding Q_def by auto
        qed
        then show ?thesis unfolding run using True by (simp only: if_True successively_rev)
      next
        case False
        have "successively R (h # l # r)"
        proof (rule successively_mono [OF q])
          fix a b
          assume "a \<in> set (h # l # r)" "b \<in> set (h # l # r)" "Q a b"
          then show "R a b" using af [of b a] mem False unfolding Q_def by auto
        qed
        then show ?thesis unfolding run using False by (simp only: if_False)
      qed
    qed
  qed
  show ?thesis
  proof (subst successively_iff_sorted_wrt_strong [symmetric])
    show "R x z" if "x \<in> set run" "y \<in> set run" "z \<in> set run" "R x y" "R y z" for x y z
      using tr [of x y z] that rs by auto
    show "successively R run" by (rule suc)
  qed
qed

lemma sorted_arraySort_generic:
  assumes tr: "\<And>a b c. a \<in> S \<Longrightarrow> b \<in> S \<Longrightarrow> c \<in> S \<Longrightarrow> R a b \<Longrightarrow> R b c \<Longrightarrow> R a c"
    and af: "\<And>x e. x \<in> S \<Longrightarrow> e \<in> S \<Longrightarrow> \<not> cmp x e < 0 \<Longrightarrow> R e x"
    and be: "\<And>x e. x \<in> S \<Longrightarrow> e \<in> S \<Longrightarrow> cmp x e < 0 \<Longrightarrow> R x e"
    and sub: "set xs \<subseteq> S"
  shows "sorted_wrt R (arraySort cmp xs)"
proof -
  obtain run rest where c: "countAndMakeRun cmp xs = (run, rest)" by (cases "countAndMakeRun cmp xs")
  have m: "mset run + mset rest = mset xs" by (rule mset_countAndMakeRun [OF c])
  have "set_mset (mset run) \<subseteq> set_mset (mset xs)" "set_mset (mset rest) \<subseteq> set_mset (mset xs)"
    unfolding m [symmetric] by simp_all
  then have rs: "set run \<subseteq> S" "set rest \<subseteq> S" using sub by simp_all
  have sr: "sorted_wrt R run"
  proof (rule sorted_countAndMakeRun [where S = S and cmp = cmp and xs = xs and rest = rest])
    show "R a c" if "a \<in> S" "b \<in> S" "c \<in> S" "R a b" "R b c" for a b c
      using that by (rule tr)
    show "R e y" if "y \<in> S" "e \<in> S" "\<not> cmp y e < 0" for y e using that by (rule af)
    show "R y e" if "y \<in> S" "e \<in> S" "cmp y e < 0" for y e using that by (rule be)
    show "set xs \<subseteq> S" by (rule sub)
    show "countAndMakeRun cmp xs = (run, rest)" by (rule c)
  qed
  have "sorted_wrt R (foldl (insertPivot cmp) run rest)"
  proof (rule sorted_foldl_insertPivot [where S = S and cmp = cmp])
    show "R a c" if "a \<in> S" "b \<in> S" "c \<in> S" "R a b" "R b c" for a b c
      using that by (rule tr)
    show "R e y" if "y \<in> S" "e \<in> S" "\<not> cmp y e < 0" for y e using that by (rule af)
    show "R y e" if "y \<in> S" "e \<in> S" "cmp y e < 0" for y e using that by (rule be)
    show "sorted_wrt R run" by (rule sr)
    show "set run \<subseteq> S" by (rule rs)
    show "set rest \<subseteq> S" by (rule rs)
  qed
  then show ?thesis by (simp add: arraySort_def c)
qed

text \<open>For a consistent comparison function the result is in ascending order.\<close>

lemma consistentOn_flip: "consistentOn xs cmp \<Longrightarrow> a \<in> set xs \<Longrightarrow> b \<in> set xs \<Longrightarrow> 0 < cmp a b \<Longrightarrow> cmp b a \<le> 0"
  unfolding consistentOn_def by (metis less_le_not_le linorder_not_less)

lemma consistentOn_trans:
  "consistentOn xs cmp \<Longrightarrow> a \<in> set xs \<Longrightarrow> b \<in> set xs \<Longrightarrow> c \<in> set xs \<Longrightarrow>
     cmp a b \<le> 0 \<Longrightarrow> cmp b c \<le> 0 \<Longrightarrow> cmp a c \<le> 0"
  unfolding consistentOn_def by blast

lemma consistentOn_strict:
  "consistentOn xs cmp \<Longrightarrow> a \<in> set xs \<Longrightarrow> b \<in> set xs \<Longrightarrow> cmp a b < 0 \<Longrightarrow> \<not> cmp b a \<le> 0"
  unfolding consistentOn_def by fastforce

lemma consistentOn_set:
  assumes "set xs = set ys" and "consistentOn xs cmp"
  shows "consistentOn ys cmp"
  using assms(2) unfolding consistentOn_def assms(1) .

lemma sorted_arraySort:
  assumes c: "consistentOn xs cmp"
  shows "sorted_wrt (\<lambda>a b. cmp a b \<le> 0) (arraySort cmp xs)"
proof (rule sorted_arraySort_generic [where S = "set xs"])
  show "cmp a d \<le> 0" if "a \<in> set xs" "b \<in> set xs" "d \<in> set xs" "cmp a b \<le> 0" "cmp b d \<le> 0" for a b d
    using c that unfolding consistentOn_def by blast
  show "cmp e x \<le> 0" if "x \<in> set xs" "e \<in> set xs" "\<not> cmp x e < 0" for x e
  proof -
    have "cmp x e < 0 \<longleftrightarrow> 0 < cmp e x" using c that(1,2) unfolding consistentOn_def by blast
    then show ?thesis using that(3) by simp
  qed
  show "cmp x e \<le> 0" if "cmp x e < 0" for x e using that by simp
  show "set xs \<subseteq> set xs" by simp
qed

text \<open>An array that is one ascending run for the comparison function is left as it is.\<close>

lemma extendRun_all:
  "successively (\<lambda>a b. \<not> cmp b a < 0) (prev # xs) \<Longrightarrow> extendRun cmp False prev xs = (xs, [])"
  by (induction xs arbitrary: prev) simp_all

lemma arraySort_run:
  assumes "successively (\<lambda>a b. \<not> cmp b a < 0) xs"
  shows "arraySort cmp xs = xs"
proof (cases xs)
  case Nil
  then show ?thesis by (simp add: arraySort_def countAndMakeRun_def)
next
  case (Cons h ys)
  show ?thesis
  proof (cases ys)
    case Nil
    then show ?thesis using Cons by (simp add: arraySort_def countAndMakeRun_def)
  next
    case (Cons l zs)
    have a: "\<not> cmp l h < 0" and b: "successively (\<lambda>a b. \<not> cmp b a < 0) (l # zs)"
      using assms \<open>xs = h # ys\<close> Cons by simp_all
    have "extendRun cmp False l zs = (zs, [])" by (rule extendRun_all [OF b])
    then show ?thesis
      using a \<open>xs = h # ys\<close> Cons by (simp add: arraySort_def countAndMakeRun_def)
  qed
qed

text \<open>
  For the comparison function of the script the directories come first, in ascending
  order of the locale comparison of their paths, as soon as the locale comparison is
  consistent on the paths of the directories: a directory is compared with an entry of
  another type by the types alone.
\<close>

lemma set_dirs_arraySort: "set (dirs (arraySort cmp tree)) = set (dirs tree)"
  by (simp add: dirs_def set_arraySort)

lemma set_files_arraySort: "set (files (arraySort cmp tree)) = set (files tree)"
  by (simp add: files_def set_arraySort)

lemma mset_dirs_arraySort: "mset (dirs (arraySort cmp tree)) = mset (dirs tree)"
  by (simp add: dirs_def mset_arraySort)

lemma mset_files_arraySort: "mset (files (arraySort cmp tree)) = mset (files tree)"
  by (simp add: files_def mset_arraySort)

lemma length_final_listing:
  "length (bnodes (final lc tree)) = 1 + length (dirs tree) + length (files tree)"
proof -
  have "size (mset (dirs (arraySort (compareEntries lc) tree))) = size (mset (dirs tree))"
    by (simp only: mset_dirs_arraySort)
  moreover have "size (mset (files (arraySort (compareEntries lc) tree))) = size (mset (files tree))"
    by (simp only: mset_files_arraySort)
  ultimately show ?thesis by (simp add: length_final)
qed

lemma sorted_treesFirst:
  assumes c: "consistentOn (map path (dirs tree)) lc"
  shows "sorted_wrt (\<lambda>a b. type b = ''tree'' \<longrightarrow> type a = ''tree'' \<and> lc (path a) (path b) \<le> 0)
           (arraySort (compareEntries lc) tree)"
proof (rule sorted_arraySort_generic [where S = "set tree"])
  have dp: "path a \<in> set (map path (dirs tree))" if "a \<in> set tree" "type a = ''tree''" for a
    using that by (simp add: dirs_def)
  show "type d = ''tree'' \<longrightarrow> type a = ''tree'' \<and> lc (path a) (path d) \<le> 0"
    if m: "a \<in> set tree" "b \<in> set tree" "d \<in> set tree"
      and ab: "type b = ''tree'' \<longrightarrow> type a = ''tree'' \<and> lc (path a) (path b) \<le> 0"
      and bd: "type d = ''tree'' \<longrightarrow> type b = ''tree'' \<and> lc (path b) (path d) \<le> 0" for a b d
  proof
    assume td: "type d = ''tree''"
    then have tb: "type b = ''tree''" and le2: "lc (path b) (path d) \<le> 0" using bd by simp_all
    then have ta: "type a = ''tree''" and le1: "lc (path a) (path b) \<le> 0" using ab by simp_all
    have "lc (path a) (path d) \<le> 0"
      by (rule consistentOn_trans [OF c dp [OF m(1) ta] dp [OF m(2) tb] dp [OF m(3) td] le1 le2])
    with ta show "type a = ''tree'' \<and> lc (path a) (path d) \<le> 0" by simp
  qed
  show "type x = ''tree'' \<longrightarrow> type e = ''tree'' \<and> lc (path e) (path x) \<le> 0"
    if m: "x \<in> set tree" "e \<in> set tree" and n: "\<not> compareEntries lc x e < 0" for x e
  proof
    assume tx: "type x = ''tree''"
    have te: "type e = ''tree''"
    proof (rule ccontr)
      assume "type e \<noteq> ''tree''"
      then have "compareEntries lc x e = - 1" using tx by (simp add: compareEntries_def)
      then show False using n by simp
    qed
    then have "\<not> lc (path x) (path e) < 0" using n tx by (simp add: compareEntries_def)
    moreover have "lc (path x) (path e) < 0 \<longleftrightarrow> 0 < lc (path e) (path x)"
      using c dp [OF m(1) tx] dp [OF m(2) te] unfolding consistentOn_def by blast
    ultimately show "type e = ''tree'' \<and> lc (path e) (path x) \<le> 0" using te by simp
  qed
  show "type e = ''tree'' \<longrightarrow> type x = ''tree'' \<and> lc (path x) (path e) \<le> 0"
    if n: "compareEntries lc x e < 0" for x e
  proof
    assume te: "type e = ''tree''"
    have tx: "type x = ''tree''"
    proof (rule ccontr)
      assume "type x \<noteq> ''tree''"
      then have "compareEntries lc x e = 1" using te by (simp add: compareEntries_def)
      then show False using n by simp
    qed
    then show "type x = ''tree'' \<and> lc (path x) (path e) \<le> 0"
      using n te by (simp add: compareEntries_def)
  qed
  show "set tree \<subseteq> set tree" by simp
qed

lemma sorted_dirs_by_path:
  assumes "consistentOn (map path (dirs tree)) lc"
  shows "sorted_wrt (\<lambda>a b. lc (path a) (path b) \<le> 0) (dirs (arraySort (compareEntries lc) tree))"
proof -
  have "sorted_wrt (\<lambda>a b. type b = ''tree'' \<longrightarrow> type a = ''tree'' \<and> lc (path a) (path b) \<le> 0)
          (dirs (arraySort (compareEntries lc) tree))"
    unfolding dirs_def by (intro sorted_wrt_filter sorted_treesFirst assms)
  then show ?thesis
    by (rule sorted_wrt_mono_rel [rotated]) (simp add: dirs_def)
qed

lemma parentsFirst_dirs:
  assumes c: "consistentOn (map path (dirs tree)) lc" and ps: "parentsSortFirst lc tree"
  shows "parentsFirst (dirs (arraySort (compareEntries lc) tree))"
  unfolding parentsFirst_def
proof (intro allI impI)
  let ?ds = "dirs (arraySort (compareEntries lc) tree)"
  fix i j
  assume i: "i < length ?ds" and j: "j < length ?ds"
    and eq: "path (?ds ! j) = parentKey (path (?ds ! i))"
  have mi: "?ds ! i \<in> set (dirs tree)" and mj: "?ds ! j \<in> set (dirs tree)"
    using i j set_dirs_arraySort nth_mem by blast+
  then have pi: "path (?ds ! i) \<in> set (map path (dirs tree))"
    and pj: "path (?ds ! j) \<in> set (map path (dirs tree))"
    by simp_all
  have lt: "lc (path (?ds ! j)) (path (?ds ! i)) < 0"
    using ps mi mj eq by (simp add: parentsSortFirst_def)
  then have no: "\<not> lc (path (?ds ! i)) (path (?ds ! j)) \<le> 0"
    by (rule consistentOn_strict [OF c pj pi])
  have srt: "sorted_wrt (\<lambda>a b. lc (path a) (path b) \<le> 0) ?ds"
    by (rule sorted_dirs_by_path [OF c])
  show "j < i"
  proof (rule ccontr)
    assume "\<not> j < i"
    then consider "i < j" | "i = j" by linarith
    then show False
    proof cases
      case 1
      then show False using srt no j by (simp add: sorted_wrt_iff_nth_less)
    next
      case 2
      then show False using lt no by simp
    qed
  qed
qed

text \<open>
  The comparison function of the script is consistent on a listing whose entries are of
  the types \<open>tree\<close> and \<open>blob\<close> when the locale comparison is consistent on their paths. A
  \<open>blob\<close> and an entry of a third type (a submodule has the type \<open>commit\<close>) compare as 1
  in both orders: on a listing that holds both, such as \<open>submoduleTree\<close>, it is not
  consistent, and the order of the files is the one the sort happens to leave.
\<close>

lemma compareEntries_third_type:
  "compareEntries lc \<lparr>path = x, type = ''blob''\<rparr> \<lparr>path = y, type = ''commit''\<rparr> = 1 \<and>
   compareEntries lc \<lparr>path = y, type = ''commit''\<rparr> \<lparr>path = x, type = ''blob''\<rparr> = 1"
  by (simp add: compareEntries_def)

lemma consistentOn_compareEntries:
  assumes c: "consistentOn (map path tree) lc"
    and ty: "\<forall>e \<in> set tree. type e = ''tree'' \<or> type e = ''blob''"
  shows "consistentOn tree (compareEntries lc)"
proof -
  have sgn: "lc (path a) (path b) < 0 \<longleftrightarrow> 0 < lc (path b) (path a)"
    if "a \<in> set tree" "b \<in> set tree" for a b
    using c that unfolding consistentOn_def by simp
  have tr: "lc (path a) (path d) \<le> 0"
    if "a \<in> set tree" "b \<in> set tree" "d \<in> set tree"
      "lc (path a) (path b) \<le> 0" "lc (path b) (path d) \<le> 0" for a b d
    using consistentOn_trans [OF c, of "path a" "path b" "path d"] that by simp
  have one: "compareEntries lc a b < 0 \<longleftrightarrow> 0 < compareEntries lc b a"
    if "a \<in> set tree" "b \<in> set tree" for a b
  proof -
    have "type a = ''tree'' \<or> type a = ''blob''" "type b = ''tree'' \<or> type b = ''blob''"
      using ty that by blast+
    then show ?thesis using sgn [OF that] by (auto simp: compareEntries_def)
  qed
  have two: "compareEntries lc a d \<le> 0"
    if m: "a \<in> set tree" "b \<in> set tree" "d \<in> set tree"
      and le: "compareEntries lc a b \<le> 0" "compareEntries lc b d \<le> 0" for a b d
  proof (cases "type a = type d")
    case True
    show ?thesis
    proof (cases "type a = type b")
      case same: True
      then show ?thesis using True le tr [OF m] by (simp add: compareEntries_def)
    next
      case False
      then have "type a = ''tree''" "type b \<noteq> ''tree''"
        using le(1) by (auto simp: compareEntries_def split: if_splits)
      then show ?thesis using True le(2) by (auto simp: compareEntries_def split: if_splits)
    qed
  next
    case False
    have "type a = ''tree''"
    proof (rule ccontr)
      assume na: "type a \<noteq> ''tree''"
      then have ab: "type a = ''blob''" using ty m(1) by blast
      then have "type d = ''tree''" using False ty m(3) by auto
      moreover have "type b = type a" using le(1) na by (auto simp: compareEntries_def split: if_splits)
      ultimately show False using le(2) ab by (auto simp: compareEntries_def split: if_splits)
    qed
    then show ?thesis using False by (simp add: compareEntries_def)
  qed
  show ?thesis
    unfolding consistentOn_def using one two by blast
qed

lemma codeUnitCompare_sign: "codeUnitCompare a b < 0 \<longleftrightarrow> 0 < codeUnitCompare b a"
proof (induction a b rule: codeUnitCompare.induct)
  case (4 a as b bs)
  show ?case
  proof (cases "a = b")
    case True
    then show ?thesis using 4 by simp
  next
    case False
    then have "(of_char a :: nat) \<noteq> of_char b" by simp
    then show ?thesis using False by auto
  qed
qed simp_all

lemma codeUnitCompare_trans:
  "codeUnitCompare a b \<le> 0 \<Longrightarrow> codeUnitCompare b c \<le> 0 \<Longrightarrow> codeUnitCompare a c \<le> 0"
proof (induction a arbitrary: b c)
  case Nil
  then show ?case by (cases c) simp_all
next
  case (Cons x xs)
  from Cons.prems(1) obtain y ys where b: "b = y # ys" by (cases b) auto
  from Cons.prems(2) b obtain z zs where c: "c = z # zs" by (cases c) auto
  have xy: "x = y \<and> codeUnitCompare xs ys \<le> 0 \<or> x \<noteq> y \<and> (of_char x :: nat) < of_char y"
    using Cons.prems(1) b by (auto split: if_splits)
  have yz: "y = z \<and> codeUnitCompare ys zs \<le> 0 \<or> y \<noteq> z \<and> (of_char y :: nat) < of_char z"
    using Cons.prems(2) b c by (auto split: if_splits)
  show ?case
  proof (cases "x = y \<and> y = z")
    case True
    then have "codeUnitCompare xs zs \<le> 0" using xy yz Cons.IH by blast
    then show ?thesis using True c by simp
  next
    case False
    then have "(of_char x :: nat) < of_char z" using xy yz by auto
    then have "x \<noteq> z" by auto
    then show ?thesis using \<open>(of_char x :: nat) < of_char z\<close> c by simp
  qed
qed

lemma consistentOn_codeUnitCompare: "consistentOn xs codeUnitCompare"
  unfolding consistentOn_def using codeUnitCompare_sign codeUnitCompare_trans by blast

lemma submodule_not_consistent: "\<not> consistentOn submoduleTree (compareEntries codeUnitCompare)"
  by code_simp

lemma sorted_dirs:
  assumes "consistentOn tree (compareEntries lc)"
  shows "sorted_wrt (\<lambda>a b. lc (path a) (path b) \<le> 0) (dirs (arraySort (compareEntries lc) tree))"
proof -
  have "sorted_wrt (\<lambda>a b. compareEntries lc a b \<le> 0) (dirs (arraySort (compareEntries lc) tree))"
    unfolding dirs_def by (intro sorted_wrt_filter sorted_arraySort assms)
  then show ?thesis
    by (rule sorted_wrt_mono_rel [rotated]) (simp add: dirs_def compareEntries_def)
qed

lemma sorted_files:
  assumes "consistentOn tree (compareEntries lc)"
  shows "sorted_wrt (\<lambda>a b. lc (path a) (path b) \<le> 0) (files (arraySort (compareEntries lc) tree))"
proof -
  have "sorted_wrt (\<lambda>a b. compareEntries lc a b \<le> 0) (files (arraySort (compareEntries lc) tree))"
    unfolding files_def by (intro sorted_wrt_filter sorted_arraySort assms)
  then show ?thesis
    by (rule sorted_wrt_mono_rel [rotated]) (simp add: files_def compareEntries_def)
qed

subsection \<open>Parents before children\<close>

lemma dom_dirMap_final: "dom (dirMap (final lc tree)) = insert [] (path ` set (dirs tree))"
  by (simp add: final_def Let_def dirMap_foldl_fileStep dom_foldl_dirStep set_dirs_arraySort initial_def)

lemma path_final_listed:
  assumes "0 < i" and "i < length (bnodes (final lc tree))"
  shows "p (bnodes (final lc tree) ! i) \<in> path ` set (dirs tree @ files tree)"
proof -
  let ?E = "arraySort (compareEntries lc) tree"
  have "map p (bnodes (final lc tree)) ! i = (''/'' # map path (dirs ?E @ files ?E)) ! i"
    by (simp add: paths_final)
  then have "p (bnodes (final lc tree) ! i) = map path (dirs ?E @ files ?E) ! (i - 1)"
    using assms by (simp add: nth_Cons')
  moreover have "i - 1 < length (map path (dirs ?E @ files ?E))"
    using assms by (simp add: length_final)
  ultimately have "p (bnodes (final lc tree) ! i) \<in> set (map path (dirs ?E @ files ?E))"
    by (metis nth_mem)
  then show ?thesis by (simp add: set_dirs_arraySort set_files_arraySort image_Un)
qed

lemma listed_parent_final:
  assumes "parentsListed tree" and "0 < i" and "i < length (bnodes (final lc tree))"
  shows "\<exists>j. dirMap (final lc tree) (parentKey (p (bnodes (final lc tree) ! i))) = Some j"
proof -
  have "p (bnodes (final lc tree) ! i) \<in> path ` set (dirs tree @ files tree)"
    by (rule path_final_listed [OF assms(2,3)])
  then obtain e where "e \<in> set (dirs tree @ files tree)" "p (bnodes (final lc tree) ! i) = path e"
    by (elim imageE)
  then have "parentKey (p (bnodes (final lc tree) ! i)) \<in> insert [] (path ` set (dirs tree))"
    using assms(1) by (simp only: parentsListed_def)
  then have "parentKey (p (bnodes (final lc tree) ! i)) \<in> dom (dirMap (final lc tree))"
    by (simp only: dom_dirMap_final)
  then show ?thesis by blast
qed

lemma dirMap_dirStep: "dirMap (dirStep s e) = (dirMap s)(path e \<mapsto> length (bnodes s))"
  by (simp add: dirStep_def)

lemma dirMap_fileStep: "dirMap (fileStep s e) = dirMap s"
  by (simp add: fileStep_def)

lemma parentsFirst_snoc:
  assumes "parentsFirst (xs @ [d])"
  shows "parentsFirst xs"
    and "\<forall>i < length xs. path d \<noteq> parentKey (path (xs ! i))"
    and "path d \<noteq> parentKey (path d)"
proof -
  have a: "\<And>i j. i < Suc (length xs) \<Longrightarrow> j < Suc (length xs) \<Longrightarrow>
         path ((xs @ [d]) ! j) = parentKey (path ((xs @ [d]) ! i)) \<Longrightarrow> j < i"
    using assms by (simp add: parentsFirst_def)
  show "parentsFirst xs"
    unfolding parentsFirst_def
  proof (intro allI impI)
    fix i j
    assume "i < length xs" "j < length xs" "path (xs ! j) = parentKey (path (xs ! i))"
    then show "j < i" using a [of i j] by (simp add: nth_append)
  qed
  show "\<forall>i < length xs. path d \<noteq> parentKey (path (xs ! i))"
  proof (intro allI impI notI)
    fix i
    assume "i < length xs" "path d = parentKey (path (xs ! i))"
    then show False using a [of i "length xs"] by (simp add: nth_append)
  qed
  show "path d \<noteq> parentKey (path d)"
    using a [of "length xs" "length xs"] by auto
qed

lemma dir_invariants:
  "parentsFirst ds \<Longrightarrow> ordered (foldl dirStep initial ds) \<and> pidsMatch (foldl dirStep initial ds)"
proof (induction ds rule: rev_induct)
  case Nil
  then show ?case by (auto simp: ordered_def pidsMatch_def initial_def)
next
  case (snoc d xs)
  let ?s = "foldl dirStep initial xs"
  let ?n = "length (bnodes ?s)"
  note pf = parentsFirst_snoc [OF snoc.prems]
  have ih: "ordered ?s" "pidsMatch ?s" using snoc.IH pf(1) by simp_all
  have w: "wf ?s" by (rule wf_foldl_dirStep [OF wf_initial])
  have n: "?n = Suc (length xs)" by (simp add: length_foldl_dirStep initial_def)
  have ps: "map p (bnodes ?s) = ''/'' # map path xs"
    by (simp add: paths_foldl_dirStep initial_def rootNode_def)
  have old: "p (bnodes ?s ! i) = path (xs ! (i - 1))" if "0 < i" "i < ?n" for i
  proof -
    have "map p (bnodes ?s) ! i = (''/'' # map path xs) ! i" by (simp only: ps)
    then show ?thesis using that n by (simp add: nth_Cons')
  qed
  have key_old: "parentKey (p (bnodes ?s ! i)) \<noteq> path d" if "0 < i" "i < ?n" for i
  proof -
    have "i - 1 < length xs" using that n by arith
    then have "path d \<noteq> parentKey (path (xs ! (i - 1)))" using pf(2) by blast
    then show ?thesis by (simp only: old [OF that]) simp
  qed
  have look_old: "dirMap (dirStep ?s d) (parentKey (p (bnodes ?s ! i))) = dirMap ?s (parentKey (p (bnodes ?s ! i)))"
    if "0 < i" "i < ?n" for i
    using key_old [OF that] by (simp add: dirMap_dirStep)
  have look_new: "dirMap (dirStep ?s d) (parentKey (path d)) = dirMap ?s (parentKey (path d))"
    using pf(3) by (simp add: dirMap_dirStep)
  have o: "ordered (dirStep ?s d)"
    unfolding ordered_def
  proof (intro allI impI)
    fix i j
    assume a: "0 < i \<and> i < length (bnodes (dirStep ?s d)) \<and>
       dirMap (dirStep ?s d) (parentKey (p (bnodes (dirStep ?s d) ! i))) = Some j"
    then have "i < ?n \<or> i = ?n" by (auto simp: bnodes_dirStep)
    then show "j < i"
    proof
      assume i: "i < ?n"
      then have "dirMap ?s (parentKey (p (bnodes ?s ! i))) = Some j"
        using a look_old [of i] by (simp add: bnodes_dirStep nth_append)
      then show ?thesis using ih(1) a i by (auto simp: ordered_def)
    next
      assume i: "i = ?n"
      then have "dirMap ?s (parentKey (path d)) = Some j"
        using a look_new by (simp add: bnodes_dirStep)
      then show ?thesis using w i by (simp add: wf_def)
    qed
  qed
  have m: "pidsMatch (dirStep ?s d)"
    unfolding pidsMatch_def
  proof (intro allI impI)
    fix i
    assume a: "0 < i \<and> i < length (bnodes (dirStep ?s d))"
    then have "i < ?n \<or> i = ?n" by (auto simp: bnodes_dirStep)
    then show "pid (bnodes (dirStep ?s d) ! i) = pidFor (dirMap (dirStep ?s d)) (p (bnodes (dirStep ?s d) ! i))"
    proof
      assume i: "i < ?n"
      then have "pid (bnodes ?s ! i) = pidFor (dirMap ?s) (p (bnodes ?s ! i))"
        using ih(2) a by (simp add: pidsMatch_def)
      then show ?thesis
        using i a look_old [of i] by (simp add: bnodes_dirStep nth_append pidFor_def)
    next
      assume i: "i = ?n"
      then show ?thesis using look_new by (simp add: bnodes_dirStep pidFor_def)
    qed
  qed
  from o m show ?case by simp
qed

lemma ordered_fileStep: "wf s \<Longrightarrow> ordered s \<Longrightarrow> ordered (fileStep s e)"
  unfolding ordered_def wf_def
  by (auto simp: bnodes_fileStep dirMap_fileStep nth_append less_Suc_eq)

lemma pidsMatch_fileStep: "pidsMatch s \<Longrightarrow> pidsMatch (fileStep s e)"
  unfolding pidsMatch_def
  by (auto simp: bnodes_fileStep dirMap_fileStep nth_append less_Suc_eq)

lemma file_invariants:
  "wf s \<Longrightarrow> ordered s \<Longrightarrow> pidsMatch s \<Longrightarrow>
     ordered (foldl fileStep s fs) \<and> pidsMatch (foldl fileStep s fs)"
  by (induction fs arbitrary: s) (simp_all add: ordered_fileStep pidsMatch_fileStep wf_fileStep)

lemma final_ordered:
  assumes "consistentOn (map path (dirs tree)) lc" and "parentsSortFirst lc tree"
  shows "ordered (final lc tree)" and "pidsMatch (final lc tree)"
proof -
  let ?es = "arraySort (compareEntries lc) tree"
  have "ordered (foldl dirStep initial (dirs ?es)) \<and> pidsMatch (foldl dirStep initial (dirs ?es))"
    by (rule dir_invariants) (rule parentsFirst_dirs [OF assms])
  then have "ordered (foldl fileStep (foldl dirStep initial (dirs ?es)) (files ?es)) \<and>
             pidsMatch (foldl fileStep (foldl dirStep initial (dirs ?es)) (files ?es))"
    using file_invariants [OF wf_foldl_dirStep [OF wf_initial]] by blast
  then show "ordered (final lc tree)" and "pidsMatch (final lc tree)"
    by (simp_all add: final_def Let_def)
qed

lemma file_pids:
  "\<forall>i. length (bnodes s) \<le> i \<and> i < length (bnodes (foldl fileStep s fs)) \<longrightarrow>
     pid (bnodes (foldl fileStep s fs) ! i) = pidFor (dirMap s) (p (bnodes (foldl fileStep s fs) ! i))"
proof (induction fs rule: rev_induct)
  case Nil
  then show ?case by auto
next
  case (snoc x xs)
  let ?s = "foldl fileStep s xs"
  have l: "length (bnodes ?s) = length (bnodes s) + length xs" by (rule length_foldl_fileStep)
  have d: "dirMap ?s = dirMap s" by (rule dirMap_foldl_fileStep)
  show ?case
  proof (intro allI impI)
    fix i
    assume a: "length (bnodes s) \<le> i \<and> i < length (bnodes (foldl fileStep s (xs @ [x])))"
    then have "i < length (bnodes ?s) \<or> i = length (bnodes ?s)"
      by (auto simp: bnodes_fileStep)
    then show "pid (bnodes (foldl fileStep s (xs @ [x])) ! i) =
        pidFor (dirMap s) (p (bnodes (foldl fileStep s (xs @ [x])) ! i))"
    proof
      assume "i < length (bnodes ?s)"
      then show ?thesis using snoc a by (simp add: bnodes_fileStep nth_append)
    next
      assume "i = length (bnodes ?s)"
      then show ?thesis by (simp add: bnodes_fileStep d)
    qed
  qed
qed

lemma node_rule:
  assumes i: "0 < i" "i < length (bnodes (final lc tree))"
    and h: "t (bnodes (final lc tree) ! i) = ''f'' \<or>
            (consistentOn (map path (dirs tree)) lc \<and> parentsSortFirst lc tree)"
  shows "\<forall>j. dirMap (final lc tree) (parentKey (p (bnodes (final lc tree) ! i))) = Some j \<longrightarrow> j < i"
    and "pid (bnodes (final lc tree) ! i) = pidFor (dirMap (final lc tree)) (p (bnodes (final lc tree) ! i))"
proof -
  let ?E = "arraySort (compareEntries lc) tree"
  let ?s1 = "foldl dirStep initial (dirs ?E)"
  have f: "final lc tree = foldl fileStep ?s1 (files ?E)" by (simp add: final_def Let_def)
  have w1: "wf ?s1" by (rule wf_foldl_dirStep [OF wf_initial])
  have l1: "length (bnodes ?s1) = Suc (length (dirs ?E))"
    by (simp add: length_foldl_dirStep initial_def)
  have d: "dirMap (final lc tree) = dirMap ?s1" unfolding f by (rule dirMap_foldl_fileStep)
  from h have "(\<forall>j. dirMap (final lc tree) (parentKey (p (bnodes (final lc tree) ! i))) = Some j \<longrightarrow> j < i) \<and>
    pid (bnodes (final lc tree) ! i) = pidFor (dirMap (final lc tree)) (p (bnodes (final lc tree) ! i))"
  proof
    assume tf: "t (bnodes (final lc tree) ! i) = ''f''"
    have gt: "length (bnodes ?s1) \<le> i" using file_index [OF i(2) tf] l1 by simp
    have "\<forall>j. dirMap ?s1 (parentKey (p (bnodes (final lc tree) ! i))) = Some j \<longrightarrow> j < i"
      using w1 gt unfolding wf_def by (meson less_le_trans)
    moreover have "pid (bnodes (final lc tree) ! i) = pidFor (dirMap ?s1) (p (bnodes (final lc tree) ! i))"
      using file_pids [of ?s1 "files ?E"] gt i(2) unfolding f by blast
    ultimately show ?thesis unfolding d by simp
  next
    assume "consistentOn (map path (dirs tree)) lc \<and> parentsSortFirst lc tree"
    then have "ordered (final lc tree)" "pidsMatch (final lc tree)"
      using final_ordered by blast+
    then show ?thesis using i unfolding ordered_def pidsMatch_def by blast
  qed
  then show "\<forall>j. dirMap (final lc tree) (parentKey (p (bnodes (final lc tree) ! i))) = Some j \<longrightarrow> j < i"
    and "pid (bnodes (final lc tree) ! i) = pidFor (dirMap (final lc tree)) (p (bnodes (final lc tree) ! i))"
    by simp_all
qed

lemma keptParent_ordered:
  assumes "ordered s" and "0 < i" and "i < length (take m (bnodes s))"
  shows "keptParent (take m (bnodes s)) (dirMap s) i = dirMap s (parentKey (p (bnodes s ! i)))"
proof (cases "dirMap s (parentKey (p (bnodes s ! i)))")
  case None
  then show ?thesis using assms(3) by (simp add: keptParent_take del: length_take)
next
  case (Some j)
  then have "j < i" using assms by (auto simp: ordered_def)
  then have "j < length (take m (bnodes s))" using assms(3) by linarith
  then show ?thesis using Some assms(3) by (simp add: keptParent_take del: length_take)
qed

lemma parents_first_edges:
  assumes "ordered s"
  shows "\<forall>(c, q) \<in> set (edgePairs (rebuildEdges (take m (bnodes s)) (dirMap s))). q < c"
proof -
  let ?ns = "take m (bnodes s)"
  have "q < c" if "(c, q) \<in> set (edgePairs (rebuildEdges ?ns (dirMap s)))" for c q
  proof -
    from that have c: "0 < c" "c < length ?ns" and k: "keptParent ?ns (dirMap s) c = Some q"
      by (simp_all add: in_edgePairs_rebuildEdges del: length_take)
    then have "dirMap s (parentKey (p (bnodes s ! c))) = Some q"
      using keptParent_ordered [OF assms c] by simp
    then show ?thesis using assms c by (auto simp: ordered_def)
  qed
  then show ?thesis by blast
qed

lemma parentsSortFirst_sample: "parentsSortFirst codeUnitCompare sampleTree"
  by code_simp

lemma parentsListed_sample: "parentsListed sampleTree"
  by code_simp

lemma consistent_dirs_sample: "consistentOn (map path (dirs sampleTree)) codeUnitCompare"
  by (rule consistentOn_codeUnitCompare)

lemma consistent_dirs_submodule: "consistentOn (map path (dirs submoduleTree)) codeUnitCompare"
  by (rule consistentOn_codeUnitCompare)

lemma parentsSortFirst_submodule: "parentsSortFirst codeUnitCompare submoduleTree"
  by code_simp

text \<open>
  C9. Generation succeeds, and in its result: after a file node come only file nodes, so
  all directory nodes are before all file nodes; and in an edge \<open>(childIndex, parentIndex)\<close>
  the parent index is strictly below the child index, for every edge of a file node
  whatever the listing and the comparison, and for every edge of a directory node when the
  locale comparison is consistent on the paths of the listed directories (ECMAScript
  requires \<open>localeCompare\<close> to be a consistent comparison) and puts each listed directory
  before the directories directly in it (a parent directory's path sorts before the paths
  below it). Entries of other types do not matter: the listing may hold the \<open>commit\<close> entry
  of a submodule, on which the comparison function of the script is not consistent.
\<close>

theorem parents_precede_children:
  "\<exists>out. generate lc tree = Inr out \<and>
     (\<forall>i j. i < j \<and> j < length (nodes out) \<and> t (nodes out ! i) = ''f'' \<longrightarrow> t (nodes out ! j) = ''f'') \<and>
     (\<forall>(c, q) \<in> set (edgePairs (edges out)).
        t (nodes out ! c) = ''f'' \<or>
        (consistentOn (map path (dirs tree)) lc \<and> parentsSortFirst lc tree) \<longrightarrow> q < c)"
proof -
  let ?s = "final lc tree"
  let ?ns = "take MAX_NODES (bnodes ?s)"
  let ?es = "rebuildEdges ?ns (dirMap ?s)"
  let ?out = "\<lparr>nodes = ?ns, edges = ?es\<rparr>"
  have sel: "nodes ?out = ?ns" "edges ?out = ?es" by simp_all
  have kinds: "t (?ns ! j) = ''f''" if a: "i < j \<and> j < length ?ns \<and> t (?ns ! i) = ''f''" for i j
  proof -
    have il: "i < length ?ns" and jl: "j < length ?ns" using a by simp_all
    have ib: "i < length (bnodes ?s)" and jb: "j < length (bnodes ?s)" using il jl by simp_all
    have "t (bnodes ?s ! i) = ''f''" using a il by auto
    then have "length (dirs (arraySort (compareEntries lc) tree)) < i"
      by (rule file_index [OF ib])
    then have "length (dirs (arraySort (compareEntries lc) tree)) < j" using a by simp
    then have "t (bnodes ?s ! j) = ''f''" by (rule file_kind [OF jb])
    then show ?thesis using jl by simp
  qed
  have lt: "q < c"
    if e: "(c, q) \<in> set (edgePairs ?es)"
      and h: "t (?ns ! c) = ''f'' \<or> (consistentOn (map path (dirs tree)) lc \<and> parentsSortFirst lc tree)"
    for c q
  proof -
    from e have c: "0 < c" "c < length ?ns" and k: "keptParent ?ns (dirMap ?s) c = Some q"
      by (simp_all add: in_edgePairs_rebuildEdges del: length_take)
    have cb: "c < length (bnodes ?s)" using c(2) by simp
    have h': "t (bnodes ?s ! c) = ''f'' \<or> (consistentOn (map path (dirs tree)) lc \<and> parentsSortFirst lc tree)"
      using h c(2) by simp
    note r = node_rule(1) [OF c(1) cb h']
    have "keptParent ?ns (dirMap ?s) c = dirMap ?s (parentKey (p (bnodes ?s ! c)))"
      by (rule keptParent_before [where dm = "dirMap ?s" and ns = "bnodes ?s" and i = c, OF r c(2)])
    then have "dirMap ?s (parentKey (p (bnodes ?s ! c))) = Some q" using k by simp
    then show ?thesis using r by simp
  qed
  show ?thesis
  proof (intro exI conjI allI impI ballI)
    show "generate lc tree = Inr ?out" by (rule generate_final)
  next
    fix i j
    assume "i < j \<and> j < length (nodes ?out) \<and> t (nodes ?out ! i) = ''f''"
    then show "t (nodes ?out ! j) = ''f''" unfolding sel by (rule kinds)
  next
    fix x
    assume x: "x \<in> set (edgePairs (edges ?out))"
    show "case x of (c, q) \<Rightarrow>
        t (nodes ?out ! c) = ''f'' \<or>
        (consistentOn (map path (dirs tree)) lc \<and> parentsSortFirst lc tree) \<longrightarrow> q < c"
    proof (cases x)
      case (Pair c q)
      then have "(c, q) \<in> set (edgePairs ?es)" using x by simp
      then show ?thesis unfolding Pair sel using lt by simp
    qed
  qed
qed

text \<open>
  On \<open>submoduleTree\<close> both conditions on the locale comparison hold; \<open>(2, 1)\<close> is the edge of
  a directory node and \<open>(7, 2)\<close> the edge of a file node.
\<close>

theorem parents_precede_children_witness:
  "consistentOn (map path (dirs submoduleTree)) codeUnitCompare \<and>
   parentsSortFirst codeUnitCompare submoduleTree \<and>
   (\<exists>out. generate codeUnitCompare submoduleTree = Inr out \<and>
      (2, 1) \<in> set (edgePairs (edges out)) \<and> t (nodes out ! 2) = ''d'' \<and>
      (7, 2) \<in> set (edgePairs (edges out)) \<and> t (nodes out ! 7) = ''f'' \<and>
      (\<forall>(c, q) \<in> set (edgePairs (edges out)). q < c))"
proof -
  from parents_precede_children [of codeUnitCompare submoduleTree]
  obtain out where g: "generate codeUnitCompare submoduleTree = Inr out"
    and a: "\<forall>(c, q) \<in> set (edgePairs (edges out)).
        t (nodes out ! c) = ''f'' \<or>
        (consistentOn (map path (dirs submoduleTree)) codeUnitCompare \<and>
         parentsSortFirst codeUnitCompare submoduleTree) \<longrightarrow> q < c"
    by blast
  from a have lt: "\<forall>(c, q) \<in> set (edgePairs (edges out)). q < c"
    using consistent_dirs_submodule parentsSortFirst_submodule by blast
  from g have out: "out = submoduleTopology" by (simp add: generate_submodule)
  have m: "(2, 1) \<in> set (edgePairs (edges out))" "t (nodes out ! 2) = ''d''"
    "(7, 2) \<in> set (edgePairs (edges out))" "t (nodes out ! 7) = ''f''"
    unfolding out by (simp_all add: submoduleTopology_def)
  from g m lt have "\<exists>out. generate codeUnitCompare submoduleTree = Inr out \<and>
      (2, 1) \<in> set (edgePairs (edges out)) \<and> t (nodes out ! 2) = ''d'' \<and>
      (7, 2) \<in> set (edgePairs (edges out)) \<and> t (nodes out ! 7) = ''f'' \<and>
      (\<forall>(c, q) \<in> set (edgePairs (edges out)). q < c)" by blast
  with consistent_dirs_submodule parentsSortFirst_submodule show ?thesis by (intro conjI)
qed

text \<open>
  C10. Generation succeeds; the root node has no \<open>pid\<close>; and for a non-root node \<open>i\<close> of
  the result, with \<open>dirMap\<close> the directory map the passes built: when the directory name of
  the node's path is not in \<open>dirMap\<close> the node has no \<open>pid\<close>; when it is there with index
  \<open>j\<close>, the edge list holds the pair \<open>(i, j)\<close>, and the node has no \<open>pid\<close> if \<open>j\<close> is 0 (the
  root) and otherwise has \<open>pid = String(nodes[j].id)\<close>. This holds for every file node,
  whatever the listing and the comparison, and for every directory node when the locale
  comparison is consistent on the paths of the listed directories and puts each listed
  directory before the directories directly in it.
\<close>

theorem pid_matches_parent:
  "\<exists>s out. buildNodes lc tree = Inr s \<and> generate lc tree = Inr out \<and>
     pid (nodes out ! 0) = None \<and>
     (\<forall>i. 0 < i \<and> i < length (nodes out) \<and>
          (t (nodes out ! i) = ''f'' \<or>
           (consistentOn (map path (dirs tree)) lc \<and> parentsSortFirst lc tree)) \<longrightarrow>
        (case dirMap s (parentKey (p (nodes out ! i))) of
           None \<Rightarrow> pid (nodes out ! i) = None
         | Some j \<Rightarrow>
             (i, j) \<in> set (edgePairs (edges out)) \<and>
             pid (nodes out ! i) = (if j = 0 then None else Some (String' (id' (nodes out ! j))))))"
proof -
  let ?s = "final lc tree"
  let ?ns = "take MAX_NODES (bnodes ?s)"
  let ?es = "rebuildEdges ?ns (dirMap ?s)"
  let ?out = "\<lparr>nodes = ?ns, edges = ?es\<rparr>"
  have sel: "nodes ?out = ?ns" "edges ?out = ?es" by simp_all
  have w: "wf ?s" by (rule wf_final)
  obtain xs where r: "bnodes ?s = rootNode # xs" using extends_final by blast
  have root: "pid (nodes ?out ! 0) = None" by (simp add: r MAX_NODES_def rootNode_def)
  have main: "case dirMap ?s (parentKey (p (nodes ?out ! i))) of
           None \<Rightarrow> pid (nodes ?out ! i) = None
         | Some j \<Rightarrow> (i, j) \<in> set (edgePairs (edges ?out)) \<and>
             pid (nodes ?out ! i) = (if j = 0 then None else Some (String' (id' (nodes ?out ! j))))"
    if i: "0 < i \<and> i < length (nodes ?out) \<and>
          (t (nodes ?out ! i) = ''f'' \<or>
           (consistentOn (map path (dirs tree)) lc \<and> parentsSortFirst lc tree))" for i
    unfolding sel
  proof -
    have i0: "0 < i" and il: "i < length ?ns" using i by simp_all
    have ib: "i < length (bnodes ?s)" using il by simp
    have nth: "?ns ! i = bnodes ?s ! i" using il by simp
    have h: "t (bnodes ?s ! i) = ''f'' \<or> (consistentOn (map path (dirs tree)) lc \<and> parentsSortFirst lc tree)"
      using i il by auto
    note o = node_rule(1) [OF i0 ib h]
    note pd = node_rule(2) [OF i0 ib h]
    show "case dirMap ?s (parentKey (p (?ns ! i))) of
           None \<Rightarrow> pid (?ns ! i) = None
         | Some j \<Rightarrow> (i, j) \<in> set (edgePairs ?es) \<and>
             pid (?ns ! i) = (if j = 0 then None else Some (String' (id' (?ns ! j))))"
    proof (cases "dirMap ?s (parentKey (p (bnodes ?s ! i)))")
      case None
      then show ?thesis using pd by (simp add: nth pidFor_def)
    next
      case (Some j)
      then have ji: "j < i" using o by simp
      then have jn: "j < length ?ns" using il by linarith
      then have jb: "j < length (bnodes ?s)" by simp
      have idj: "id' (?ns ! j) = j" using wf_id [OF w jb] jn by simp
      have "keptParent ?ns (dirMap ?s) i = Some j"
        using keptParent_before [where dm = "dirMap ?s" and ns = "bnodes ?s" and i = i, OF o il] Some
        by simp
      then have e: "(i, j) \<in> set (edgePairs ?es)"
        using i0 il by (simp add: in_edgePairs_rebuildEdges del: length_take)
      have "pid (?ns ! i) = (if j = 0 then None else Some (String' j))"
        using pd Some by (simp add: nth pidFor_def)
      then show ?thesis using e Some idj by (simp add: nth del: length_take nth_take)
    qed
  qed
  show ?thesis
  proof (intro exI conjI allI impI)
    show "buildNodes lc tree = Inr ?s" by (rule buildNodes_final)
    show "generate lc tree = Inr ?out" by (rule generate_final)
    show "pid (nodes ?out ! 0) = None" by (rule root)
  next
    fix i
    assume "0 < i \<and> i < length (nodes ?out) \<and>
          (t (nodes ?out ! i) = ''f'' \<or>
           (consistentOn (map path (dirs tree)) lc \<and> parentsSortFirst lc tree))"
    then show "case dirMap ?s (parentKey (p (nodes ?out ! i))) of
           None \<Rightarrow> pid (nodes ?out ! i) = None
         | Some j \<Rightarrow> (i, j) \<in> set (edgePairs (edges ?out)) \<and>
             pid (nodes ?out ! i) = (if j = 0 then None else Some (String' (id' (nodes ?out ! j))))"
      by (rule main)
  qed
qed

text \<open>
  On \<open>submoduleTree\<close>: node 2 (the directory \<open>src/lib\<close>) has the edge \<open>(2, 1)\<close> and
  \<open>pid = "1"\<close>; node 4 (the file \<open>.gitmodules\<close>) is a child of the root, has the edge
  \<open>(4, 0)\<close> and no \<open>pid\<close>; node 7 (the file \<open>src/lib/x\<close>) has the edge \<open>(7, 2)\<close> and
  \<open>pid = "2"\<close>.
\<close>

theorem pid_matches_parent_witness:
  "consistentOn (map path (dirs submoduleTree)) codeUnitCompare \<and>
   parentsSortFirst codeUnitCompare submoduleTree \<and>
   (\<exists>s out. buildNodes codeUnitCompare submoduleTree = Inr s \<and>
      generate codeUnitCompare submoduleTree = Inr out \<and>
      t (nodes out ! 2) = ''d'' \<and>
      dirMap s (parentKey (p (nodes out ! 2))) = Some 1 \<and>
      (2, 1) \<in> set (edgePairs (edges out)) \<and> pid (nodes out ! 2) = Some ''1'' \<and>
      t (nodes out ! 4) = ''f'' \<and>
      dirMap s (parentKey (p (nodes out ! 4))) = Some 0 \<and>
      (4, 0) \<in> set (edgePairs (edges out)) \<and> pid (nodes out ! 4) = None \<and>
      t (nodes out ! 7) = ''f'' \<and>
      dirMap s (parentKey (p (nodes out ! 7))) = Some 2 \<and>
      (7, 2) \<in> set (edgePairs (edges out)) \<and> pid (nodes out ! 7) = Some ''2'')"
proof -
  from pid_matches_parent [of codeUnitCompare submoduleTree]
  obtain s out where b: "buildNodes codeUnitCompare submoduleTree = Inr s"
    and g: "generate codeUnitCompare submoduleTree = Inr out"
    and a: "\<forall>i. 0 < i \<and> i < length (nodes out) \<and>
          (t (nodes out ! i) = ''f'' \<or>
           (consistentOn (map path (dirs submoduleTree)) codeUnitCompare \<and>
            parentsSortFirst codeUnitCompare submoduleTree)) \<longrightarrow>
        (case dirMap s (parentKey (p (nodes out ! i))) of
           None \<Rightarrow> pid (nodes out ! i) = None
         | Some j \<Rightarrow>
             (i, j) \<in> set (edgePairs (edges out)) \<and>
             pid (nodes out ! i) = (if j = 0 then None else Some (String' (id' (nodes out ! j)))))"
    by blast
  from g have out: "out = submoduleTopology" by (simp add: generate_submodule)
  have k: "parentKey (p (nodes out ! 2)) = ''src''" "parentKey (p (nodes out ! 4)) = []"
    "parentKey (p (nodes out ! 7)) = ''src/lib''"
    unfolding out by code_simp+
  from b have s: "s = final codeUnitCompare submoduleTree" by (simp add: buildNodes_final)
  have d: "dirMap s ''src'' = Some 1" "dirMap s [] = Some 0" "dirMap s ''src/lib'' = Some 2"
    unfolding s by code_simp+
  have l: "2 < length (nodes out)" "4 < length (nodes out)" "7 < length (nodes out)"
    unfolding out by (simp_all add: submoduleTopology_def)
  have ty: "t (nodes out ! 2) = ''d''" "t (nodes out ! 4) = ''f''" "t (nodes out ! 7) = ''f''"
    unfolding out by (simp_all add: submoduleTopology_def)
  have ids: "String' (id' (nodes out ! Suc 0)) = ''1''" "String' (id' (nodes out ! 2)) = ''2''"
    unfolding out by code_simp+
  have "case dirMap s (parentKey (p (nodes out ! 2))) of
           None \<Rightarrow> pid (nodes out ! 2) = None
         | Some j \<Rightarrow>
             (2, j) \<in> set (edgePairs (edges out)) \<and>
             pid (nodes out ! 2) = (if j = 0 then None else Some (String' (id' (nodes out ! j))))"
    using a [THEN spec [where x = 2]] l(1) consistent_dirs_submodule parentsSortFirst_submodule
    by simp
  then have c2: "(2, 1) \<in> set (edgePairs (edges out)) \<and> pid (nodes out ! 2) = Some ''1''"
    by (simp add: k d ids)
  have "case dirMap s (parentKey (p (nodes out ! 4))) of
           None \<Rightarrow> pid (nodes out ! 4) = None
         | Some j \<Rightarrow>
             (4, j) \<in> set (edgePairs (edges out)) \<and>
             pid (nodes out ! 4) = (if j = 0 then None else Some (String' (id' (nodes out ! j))))"
    using a [THEN spec [where x = 4]] l(2) ty(2) by simp
  then have c4: "(4, 0) \<in> set (edgePairs (edges out)) \<and> pid (nodes out ! 4) = None"
    by (simp add: k d)
  have "case dirMap s (parentKey (p (nodes out ! 7))) of
           None \<Rightarrow> pid (nodes out ! 7) = None
         | Some j \<Rightarrow>
             (7, j) \<in> set (edgePairs (edges out)) \<and>
             pid (nodes out ! 7) = (if j = 0 then None else Some (String' (id' (nodes out ! j))))"
    using a [THEN spec [where x = 7]] l(3) ty(3) by simp
  then have c7: "(7, 2) \<in> set (edgePairs (edges out)) \<and> pid (nodes out ! 7) = Some ''2''"
    by (simp add: k d ids)
  have "buildNodes codeUnitCompare submoduleTree = Inr s \<and>
      generate codeUnitCompare submoduleTree = Inr out \<and>
      t (nodes out ! 2) = ''d'' \<and>
      dirMap s (parentKey (p (nodes out ! 2))) = Some 1 \<and>
      (2, 1) \<in> set (edgePairs (edges out)) \<and> pid (nodes out ! 2) = Some ''1'' \<and>
      t (nodes out ! 4) = ''f'' \<and>
      dirMap s (parentKey (p (nodes out ! 4))) = Some 0 \<and>
      (4, 0) \<in> set (edgePairs (edges out)) \<and> pid (nodes out ! 4) = None \<and>
      t (nodes out ! 7) = ''f'' \<and>
      dirMap s (parentKey (p (nodes out ! 7))) = Some 2 \<and>
      (7, 2) \<in> set (edgePairs (edges out)) \<and> pid (nodes out ! 7) = Some ''2''"
    using b g c2 c4 c7 ty by (simp only: k d)
  then show ?thesis
    using consistent_dirs_submodule parentsSortFirst_submodule by blast
qed

subsection \<open>Counting edges\<close>

text \<open>
  C2, as the script has it. Generation succeeds; with \<open>dirMap\<close> the directory map of the
  passes (its keys are the empty key and the paths of the listed directories), the edge
  list holds exactly one pair for each non-root node whose directory name is a key of
  \<open>dirMap\<close> with an index below the node count, in the order of the nodes, and no pair for
  any other node. So the flat array has two numbers per pair, the number of pairs is at
  most the node count minus 1, and it is smaller exactly when some non-root node has no
  kept parent: its directory is not listed in the fetched tree, or was cut by trimming.
\<close>

theorem edge_per_kept_parent:
  "\<exists>s out. buildNodes lc tree = Inr s \<and> generate lc tree = Inr out \<and>
     dom (dirMap s) = insert [] (path ` set (dirs tree)) \<and>
     map fst (edgePairs (edges out)) =
       filter (\<lambda>i. keptParent (nodes out) (dirMap s) i \<noteq> None) [1 ..< length (nodes out)] \<and>
     (\<forall>(c, q) \<in> set (edgePairs (edges out)). keptParent (nodes out) (dirMap s) c = Some q) \<and>
     length (edges out) = 2 * length (edgePairs (edges out)) \<and>
     length (edgePairs (edges out)) \<le> length (nodes out) - 1 \<and>
     (length (edgePairs (edges out)) < length (nodes out) - 1 \<longleftrightarrow>
        (\<exists>i. 0 < i \<and> i < length (nodes out) \<and> keptParent (nodes out) (dirMap s) i = None))"
proof -
  let ?s = "final lc tree"
  let ?ns = "take MAX_NODES (bnodes ?s)"
  let ?es = "rebuildEdges ?ns (dirMap ?s)"
  let ?out = "\<lparr>nodes = ?ns, edges = ?es\<rparr>"
  have sel: "nodes ?out = ?ns" "edges ?out = ?es" by simp_all
  show ?thesis
  proof (intro exI conjI)
    show "buildNodes lc tree = Inr ?s" by (rule buildNodes_final)
    show "generate lc tree = Inr ?out" by (rule generate_final)
    show "dom (dirMap ?s) = insert [] (path ` set (dirs tree))" by (rule dom_dirMap_final)
    show "map fst (edgePairs (edges ?out)) =
       filter (\<lambda>i. keptParent (nodes ?out) (dirMap ?s) i \<noteq> None) [1 ..< length (nodes ?out)]"
      unfolding sel by (rule children_rebuildEdges)
    show "\<forall>(c, q) \<in> set (edgePairs (edges ?out)). keptParent (nodes ?out) (dirMap ?s) c = Some q"
      unfolding sel using in_edgePairs_rebuildEdges by blast
    show "length (edges ?out) = 2 * length (edgePairs (edges ?out))"
      unfolding sel by (rule length_rebuildEdges)
    show "length (edgePairs (edges ?out)) \<le> length (nodes ?out) - 1"
      unfolding sel by (rule count_rebuildEdges)
    show "length (edgePairs (edges ?out)) < length (nodes ?out) - 1 \<longleftrightarrow>
        (\<exists>i. 0 < i \<and> i < length (nodes ?out) \<and> keptParent (nodes ?out) (dirMap ?s) i = None)"
      unfolding sel by (rule count_rebuildEdges)
  qed
qed

text \<open>
  C2 as stated fails: for a tree that lists the directory \<open>src\<close> and the file \<open>lib/x\<close> but
  not the directory \<open>lib\<close>, the script writes three nodes and one edge, and nothing was
  trimmed.
\<close>

theorem edge_count_counterexample:
  "generate codeUnitCompare
     [\<lparr>path = ''src'', type = ''tree''\<rparr>, \<lparr>path = ''lib/x'', type = ''blob''\<rparr>] =
   Inr \<lparr>nodes =
          [\<lparr>t = ''r'', p = ''/'', id' = 0, pid = None\<rparr>,
           \<lparr>t = ''d'', p = ''src'', id' = 1, pid = None\<rparr>,
           \<lparr>t = ''f'', p = ''lib/x'', id' = 2, pid = None\<rparr>],
        edges = [1, 0]\<rparr>"
  by code_simp

text \<open>On that tree node 1 keeps its parent 0 and node 2 has none, so there is one pair for two non-root nodes.\<close>

theorem edge_per_kept_parent_witness:
  "\<exists>s out. buildNodes codeUnitCompare
       [\<lparr>path = ''src'', type = ''tree''\<rparr>, \<lparr>path = ''lib/x'', type = ''blob''\<rparr>] = Inr s \<and>
     generate codeUnitCompare
       [\<lparr>path = ''src'', type = ''tree''\<rparr>, \<lparr>path = ''lib/x'', type = ''blob''\<rparr>] = Inr out \<and>
     (1, 0) \<in> set (edgePairs (edges out)) \<and>
     keptParent (nodes out) (dirMap s) 1 = Some 0 \<and>
     length (edgePairs (edges out)) < length (nodes out) - 1 \<and>
     (\<exists>i. 0 < i \<and> i < length (nodes out) \<and> keptParent (nodes out) (dirMap s) i = None)"
proof -
  let ?t = "[\<lparr>path = ''src'', type = ''tree''\<rparr>, \<lparr>path = ''lib/x'', type = ''blob''\<rparr>]"
  from edge_per_kept_parent [of codeUnitCompare ?t]
  obtain s out where b: "buildNodes codeUnitCompare ?t = Inr s"
    and g: "generate codeUnitCompare ?t = Inr out"
    and a: "\<forall>(c, q) \<in> set (edgePairs (edges out)). keptParent (nodes out) (dirMap s) c = Some q"
    and c: "length (edgePairs (edges out)) < length (nodes out) - 1 \<longleftrightarrow>
        (\<exists>i. 0 < i \<and> i < length (nodes out) \<and> keptParent (nodes out) (dirMap s) i = None)"
    by blast
  have "generate codeUnitCompare ?t = Inr \<lparr>nodes =
          [\<lparr>t = ''r'', p = ''/'', id' = 0, pid = None\<rparr>,
           \<lparr>t = ''d'', p = ''src'', id' = 1, pid = None\<rparr>,
           \<lparr>t = ''f'', p = ''lib/x'', id' = 2, pid = None\<rparr>],
        edges = [1, 0]\<rparr>"
    by code_simp
  with g have out: "out = \<lparr>nodes =
          [\<lparr>t = ''r'', p = ''/'', id' = 0, pid = None\<rparr>,
           \<lparr>t = ''d'', p = ''src'', id' = 1, pid = None\<rparr>,
           \<lparr>t = ''f'', p = ''lib/x'', id' = 2, pid = None\<rparr>],
        edges = [1, 0]\<rparr>" by simp
  have m: "(1, 0) \<in> set (edgePairs (edges out))" unfolding out by simp
  with a have k: "keptParent (nodes out) (dirMap s) 1 = Some 0" by blast
  have "length (edgePairs (edges out)) < length (nodes out) - 1" unfolding out by simp
  with c b g m k show ?thesis by blast
qed

subsection \<open>A listing that is trimmed\<close>

lemma dirnameLoop_name:
  "(\<forall>i. n < i \<and> i \<le> n + k \<longrightarrow> s ! i \<noteq> CHR ''/'') \<Longrightarrow> s ! n = CHR ''/'' \<Longrightarrow> 0 < n \<Longrightarrow>
     dirnameLoop s (n + k) False = Some n"
proof (induction k)
  case 0
  then obtain m where "n = Suc m" by (cases n) auto
  then show ?case using 0 by simp
next
  case (Suc k)
  have "s ! Suc (n + k) \<noteq> CHR ''/''" using Suc.prems(1) by simp
  moreover have "dirnameLoop s (n + k) False = Some n"
    using Suc by simp
  ultimately show ?case by simp
qed

lemma dirname_join:
  assumes "d \<noteq> []" and "hd d \<noteq> CHR ''/''" and "name \<noteq> []" and "CHR ''/'' \<notin> set name"
  shows "dirname (d @ CHR ''/'' # name) = d"
proof -
  let ?s = "d @ CHR ''/'' # name"
  obtain k where k: "length name = Suc k" using assms(3) by (cases name) auto
  have nth: "?s ! (length d + Suc i) = name ! i" for i
    by (simp add: nth_append)
  have free: "\<forall>i. length d < i \<and> i \<le> length d + Suc k \<longrightarrow> ?s ! i \<noteq> CHR ''/''"
  proof (intro allI impI)
    fix i
    assume a: "length d < i \<and> i \<le> length d + Suc k"
    define j where "j = i - Suc (length d)"
    have j: "i = length d + Suc j" "j < length name"
      using a k unfolding j_def by arith+
    then have "?s ! i = name ! j" using nth by simp
    then show "?s ! i \<noteq> CHR ''/''" using assms(4) j(2) by (metis nth_mem)
  qed
  have last: "?s ! Suc (length d + k) \<noteq> CHR ''/''"
    using free by simp
  have "dirnameLoop ?s (length d + k) False = Some (length d)"
    using free assms(1) by (intro dirnameLoop_name) (simp_all add: nth_append)
  then have "dirnameLoop ?s (length ?s - 1) True = Some (length d)"
    using last k by simp
  moreover have "?s ! 0 \<noteq> CHR ''/''"
    using assms(1,2) by (cases d) simp_all
  ultimately show ?thesis by (simp add: dirname_def)
qed

lemma parentKey_orphan: "parentKey (''x/'' @ replicate (Suc k) CHR ''a'') = ''x''"
proof -
  have "dirname (''x'' @ CHR ''/'' # replicate (Suc k) CHR ''a'') = ''x''"
    by (rule dirname_join) simp_all
  then show ?thesis by (simp add: parentKey_def)
qed

lemma dirs_orphanTree: "dirs orphanTree = []"
  by (simp add: dirs_def orphanTree_def)

lemma files_orphanTree: "files orphanTree = orphanTree"
  by (simp add: files_def orphanTree_def)

lemma path_orphanTree:
  "x \<in> path ` set orphanTree \<Longrightarrow> \<exists>k. x = ''x/'' @ replicate (Suc k) CHR ''a''"
  unfolding orphanTree_def by auto

lemma length_orphanTree: "length orphanTree = 2500"
  by (simp add: orphanTree_def)

lemma dirs_listedTree: "dirs listedTree = [\<lparr>path = ''x'', type = ''tree''\<rparr>]"
  using dirs_orphanTree by (simp add: listedTree_def dirs_def)

lemma files_listedTree: "files listedTree = orphanTree"
  using files_orphanTree by (simp add: listedTree_def files_def)

lemma length_final_listedTree: "length (bnodes (final lc listedTree)) = 2502"
  by (simp add: length_final_listing dirs_listedTree files_listedTree length_orphanTree)

lemma parentKey_x: "parentKey ''x'' = []"
  by code_simp

lemma parentsSortFirst_listedTree: "parentsSortFirst lc listedTree"
  by (simp add: parentsSortFirst_def dirs_listedTree parentKey_x)

lemma parentsListed_listedTree: "parentsListed listedTree"
proof -
  have "parentKey (path e) \<in> insert [] (path ` set (dirs listedTree))"
    if "e \<in> set (dirs listedTree @ files listedTree)" for e
  proof (cases "e \<in> set (dirs listedTree)")
    case True
    then show ?thesis by (simp add: dirs_listedTree parentKey_x)
  next
    case False
    then have "path e \<in> path ` set orphanTree"
      using that by (simp add: files_listedTree)
    then obtain k where "path e = ''x/'' @ replicate (Suc k) CHR ''a''"
      using path_orphanTree by blast
    then have "parentKey (path e) = ''x''" by (simp only: parentKey_orphan)
    then show ?thesis by (simp add: dirs_listedTree)
  qed
  then show ?thesis unfolding parentsListed_def by blast
qed

lemma consistent_dirs_listedTree: "consistentOn (map path (dirs listedTree)) codeUnitCompare"
  by (rule consistentOn_codeUnitCompare)

subsection \<open>A single rooted tree\<close>

lemma ancestor_climb:
  assumes d: "map fst (edgePairs es) = [1 ..< n]"
    and o: "\<forall>(c, q) \<in> set (edgePairs es). q < c"
  shows "i < n \<Longrightarrow> \<exists>k \<le> i. ancestor es k i = Some 0"
proof (induction i rule: less_induct)
  case (less i)
  show ?case
  proof (cases "i = 0")
    case True
    then show ?thesis by (intro exI [of _ 0]) simp
  next
    case False
    then have "i \<in> set (map fst (edgePairs es))" using less.prems d by simp
    then obtain q where m: "(i, q) \<in> set (edgePairs es)" by auto
    then have qi: "q < i" using o by blast
    have "distinct (map fst (edgePairs es))" by (simp add: d)
    then have mo: "map_of (edgePairs es) i = Some q" using m by simp
    from less.IH [OF qi] qi less.prems obtain k where k: "k \<le> q" "ancestor es k q = Some 0"
      by auto
    have "ancestor es (Suc k) i = Some 0" using mo k by simp
    moreover have "Suc k \<le> i" using k qi by simp
    ultimately show ?thesis by blast
  qed
qed

lemma raw_complete:
  assumes "parentsListed tree"
  shows "map fst (edgePairs (buildEdges (bnodes (final lc tree)) (dirMap (final lc tree)))) =
           [1 ..< length (bnodes (final lc tree))]"
proof -
  let ?s = "final lc tree"
  have kept: "keptParent (bnodes ?s) (dirMap ?s) i \<noteq> None" if i: "i \<in> set [1 ..< length (bnodes ?s)]" for i
  proof -
    have "0 < i" "i < length (bnodes ?s)" using i by simp_all
    then obtain j where "dirMap ?s (parentKey (p (bnodes ?s ! i))) = Some j"
      using listed_parent_final [OF assms] by blast
    then show ?thesis by (simp add: keptParent_full [OF wf_final])
  qed
  show ?thesis
    unfolding buildEdges_final children_rebuildEdges using kept by (simp only: filter_id_conv) blast
qed

text \<open>
  C4, with the conditions the script needs. Generation succeeds, and in every result the
  root is the child of no edge, no node is the child of two edges, and a non-root node
  whose directory name is not in \<open>dirMap\<close> is the child of none. When every entry of type
  \<open>tree\<close> or \<open>blob\<close> lies at top level or in a directory that is itself listed, and
  nothing is trimmed, the children named in the edge list are exactly \<open>1, ..., N - 1\<close>:
  every non-root node has exactly one parent edge. When every such entry lies at top level
  or in a listed directory and the locale comparison is consistent on the paths of the
  listed directories and puts each listed directory before the directories directly in
  it, then, trimmed or not, the result is a single rooted tree: the children are exactly
  \<open>1, ..., N - 1\<close>, the flat edge array has \<open>2 (N - 1)\<close> numbers, every parent index is
  below its child's index, and from every node the parent links lead to the root in at
  most as many steps as the node's index, so there is no cycle.
\<close>

theorem single_rooted_tree:
  "\<exists>s out. buildNodes lc tree = Inr s \<and> generate lc tree = Inr out \<and>
     0 \<notin> fst ` set (edgePairs (edges out)) \<and>
     distinct (map fst (edgePairs (edges out))) \<and>
     (\<forall>i. 0 < i \<and> i < length (nodes out) \<and> dirMap s (parentKey (p (nodes out ! i))) = None \<longrightarrow>
        i \<notin> fst ` set (edgePairs (edges out))) \<and>
     (parentsListed tree \<and> length (bnodes s) \<le> MAX_NODES \<longrightarrow>
        map fst (edgePairs (edges out)) = [1 ..< length (nodes out)]) \<and>
     (parentsListed tree \<and> consistentOn (map path (dirs tree)) lc \<and> parentsSortFirst lc tree \<longrightarrow>
        map fst (edgePairs (edges out)) = [1 ..< length (nodes out)] \<and>
        length (edges out) = 2 * (length (nodes out) - 1) \<and>
        (\<forall>(c, q) \<in> set (edgePairs (edges out)). q < c) \<and>
        (\<forall>i < length (nodes out). \<exists>k \<le> i. ancestor (edges out) k i = Some 0))"
proof -
  let ?s = "final lc tree"
  let ?ns = "take MAX_NODES (bnodes ?s)"
  let ?es = "rebuildEdges ?ns (dirMap ?s)"
  let ?out = "\<lparr>nodes = ?ns, edges = ?es\<rparr>"
  have sel: "nodes ?out = ?ns" "edges ?out = ?es" by simp_all
  have noroot: "0 \<notin> fst ` set (edgePairs ?es)"
    by (auto simp: in_edgePairs_rebuildEdges simp del: length_take)
  have once: "distinct (map fst (edgePairs ?es))"
    unfolding children_rebuildEdges by (rule distinct_filter) simp
  have unlisted: "i \<notin> fst ` set (edgePairs ?es)"
    if a: "0 < i \<and> i < length ?ns \<and> dirMap ?s (parentKey (p (?ns ! i))) = None" for i
  proof -
    have "?ns ! i = bnodes ?s ! i" using a by auto
    then have "keptParent ?ns (dirMap ?s) i = None"
      using a by (simp add: keptParent_take del: length_take)
    then show ?thesis by (rule nochild_rebuildEdges)
  qed
  have untrimmed: "map fst (edgePairs ?es) = [1 ..< length ?ns]"
    if pl: "parentsListed tree" and le: "length (bnodes ?s) \<le> MAX_NODES"
  proof -
    have ns: "?ns = bnodes ?s" using le by simp
    have "map fst (edgePairs (rebuildEdges (bnodes ?s) (dirMap ?s))) = [1 ..< length (bnodes ?s)]"
      using raw_complete [OF pl, of lc] by (simp only: buildEdges_final)
    then show ?thesis by (simp only: ns)
  qed
  have tree: "map fst (edgePairs ?es) = [1 ..< length ?ns] \<and>
        length ?es = 2 * (length ?ns - 1) \<and>
        (\<forall>(c, q) \<in> set (edgePairs ?es). q < c) \<and>
        (\<forall>i < length ?ns. \<exists>k \<le> i. ancestor ?es k i = Some 0)"
    if pl: "parentsListed tree" and c: "consistentOn (map path (dirs tree)) lc"
      and ps: "parentsSortFirst lc tree"
  proof -
    have o: "ordered ?s" by (rule final_ordered [OF c ps])
    have kept: "keptParent ?ns (dirMap ?s) i \<noteq> None" if i: "i \<in> set [1 ..< length ?ns]" for i
    proof -
      have i0: "0 < i" and il: "i < length ?ns" using i by simp_all
      have ib: "i < length (bnodes ?s)" using il by simp
      obtain j where "dirMap ?s (parentKey (p (bnodes ?s ! i))) = Some j"
        using listed_parent_final [OF pl i0 ib] by blast
      then show ?thesis using keptParent_ordered [OF o i0 il] by simp
    qed
    have ch: "map fst (edgePairs ?es) = [1 ..< length ?ns]"
      unfolding children_rebuildEdges using kept by (simp only: filter_id_conv) blast
    have "length (map fst (edgePairs ?es)) = length [1 ..< length ?ns]"
      by (simp only: ch)
    then have "length (edgePairs ?es) = length ?ns - 1"
      by (simp del: length_take)
    then have cnt: "length ?es = 2 * (length ?ns - 1)"
      by (simp only: length_rebuildEdges [of ?ns "dirMap ?s"])
    have lt: "\<forall>(c, q) \<in> set (edgePairs ?es). q < c"
      by (rule parents_first_edges [OF o])
    have an: "\<forall>i < length ?ns. \<exists>k \<le> i. ancestor ?es k i = Some 0"
      using ancestor_climb [OF ch lt] by blast
    from ch cnt lt an show ?thesis by (intro conjI)
  qed
  show ?thesis
  proof (intro exI conjI)
    show "buildNodes lc tree = Inr ?s" by (rule buildNodes_final)
    show "generate lc tree = Inr ?out" by (rule generate_final)
    show "0 \<notin> fst ` set (edgePairs (edges ?out))" unfolding sel by (rule noroot)
    show "distinct (map fst (edgePairs (edges ?out)))" unfolding sel by (rule once)
    show "\<forall>i. 0 < i \<and> i < length (nodes ?out) \<and>
           dirMap ?s (parentKey (p (nodes ?out ! i))) = None \<longrightarrow>
        i \<notin> fst ` set (edgePairs (edges ?out))"
      unfolding sel using unlisted by blast
    show "parentsListed tree \<and> length (bnodes ?s) \<le> MAX_NODES \<longrightarrow>
        map fst (edgePairs (edges ?out)) = [1 ..< length (nodes ?out)]"
      unfolding sel using untrimmed by blast
    show "parentsListed tree \<and> consistentOn (map path (dirs tree)) lc \<and> parentsSortFirst lc tree \<longrightarrow>
        map fst (edgePairs (edges ?out)) = [1 ..< length (nodes ?out)] \<and>
        length (edges ?out) = 2 * (length (nodes ?out) - 1) \<and>
        (\<forall>(c, q) \<in> set (edgePairs (edges ?out)). q < c) \<and>
        (\<forall>i < length (nodes ?out). \<exists>k \<le> i. ancestor (edges ?out) k i = Some 0)"
      unfolding sel using tree by blast
  qed
qed

text \<open>
  C4 as stated fails in two ways. A listing with the file \<open>docs/readme\<close> but without the
  directory \<open>docs\<close> gives two nodes and no edge: node 1 has no parent edge either. A
  listing with a directory entry whose path is empty gives the edge \<open>(1, 1)\<close>: node 1 is
  its own parent, although the directory name of every entry of that listing is listed.
\<close>

theorem single_rooted_tree_counterexample:
  "generate codeUnitCompare [\<lparr>path = ''docs/readme'', type = ''blob''\<rparr>] =
     Inr \<lparr>nodes =
            [\<lparr>t = ''r'', p = ''/'', id' = 0, pid = None\<rparr>,
             \<lparr>t = ''f'', p = ''docs/readme'', id' = 1, pid = None\<rparr>],
          edges = []\<rparr> \<and>
   generate codeUnitCompare [\<lparr>path = '''', type = ''tree''\<rparr>] =
     Inr \<lparr>nodes =
            [\<lparr>t = ''r'', p = ''/'', id' = 0, pid = None\<rparr>,
             \<lparr>t = ''d'', p = '''', id' = 1, pid = None\<rparr>],
          edges = [1, 1]\<rparr> \<and>
   parentsListed [\<lparr>path = '''', type = ''tree''\<rparr>]"
  by code_simp

text \<open>
  The sample tree meets all conditions of C4 and is not trimmed; its node 5 reaches the
  root in three steps. \<open>listedTree\<close> meets them too, and its 2500 kept nodes have 2499
  edges. In the listing with the file \<open>docs/readme\<close> alone, the directory name of node 1 is
  not in \<open>dirMap\<close>, and node 1 is the child of no edge.
\<close>

theorem single_rooted_tree_witness:
  "parentsListed sampleTree \<and>
   consistentOn (map path (dirs sampleTree)) codeUnitCompare \<and>
   parentsSortFirst codeUnitCompare sampleTree \<and>
   (\<exists>s out. buildNodes codeUnitCompare sampleTree = Inr s \<and>
      generate codeUnitCompare sampleTree = Inr out \<and>
      length (bnodes s) \<le> MAX_NODES \<and>
      map fst (edgePairs (edges out)) = [1, 2, 3, 4, 5] \<and>
      (5, 2) \<in> set (edgePairs (edges out)) \<and>
      ancestor (edges out) 3 5 = Some 0) \<and>
   parentsListed listedTree \<and>
   consistentOn (map path (dirs listedTree)) codeUnitCompare \<and>
   parentsSortFirst codeUnitCompare listedTree \<and>
   (\<exists>out. generate codeUnitCompare listedTree = Inr out \<and>
      length (nodes out) = 2500 \<and> length (edges out) = 4998 \<and>
      map fst (edgePairs (edges out)) = [1 ..< 2500]) \<and>
   (\<exists>s out. buildNodes codeUnitCompare [\<lparr>path = ''docs/readme'', type = ''blob''\<rparr>] = Inr s \<and>
      generate codeUnitCompare [\<lparr>path = ''docs/readme'', type = ''blob''\<rparr>] = Inr out \<and>
      length (nodes out) = 2 \<and>
      dirMap s (parentKey (p (nodes out ! 1))) = None \<and>
      1 \<notin> fst ` set (edgePairs (edges out)))"
proof -
  from single_rooted_tree [of codeUnitCompare sampleTree]
  obtain s out where b: "buildNodes codeUnitCompare sampleTree = Inr s"
    and g: "generate codeUnitCompare sampleTree = Inr out"
    and u: "parentsListed sampleTree \<and> length (bnodes s) \<le> MAX_NODES \<longrightarrow>
        map fst (edgePairs (edges out)) = [1 ..< length (nodes out)]"
    by blast
  from g have out: "out = sampleTopology" by (simp add: generate_sample)
  from b have s: "s = final codeUnitCompare sampleTree" by (simp add: buildNodes_final)
  have ls: "length (bnodes s) \<le> MAX_NODES"
    unfolding s by (simp add: length_final_listing MAX_NODES_def) code_simp
  from u parentsListed_sample ls
  have a: "map fst (edgePairs (edges out)) = [1 ..< length (nodes out)]" by blast
  have "length (nodes out) = 6" unfolding out by (simp add: sampleTopology_def)
  with a have a': "map fst (edgePairs (edges out)) = [1, 2, 3, 4, 5]"
    by (simp add: upt_rec)
  have m: "(5, 2) \<in> set (edgePairs (edges out))" unfolding out by (simp add: sampleTopology_def)
  have an: "ancestor (edges out) 3 5 = Some 0" unfolding out by code_simp
  have "buildNodes codeUnitCompare sampleTree = Inr s \<and>
      generate codeUnitCompare sampleTree = Inr out \<and>
      length (bnodes s) \<le> MAX_NODES \<and>
      map fst (edgePairs (edges out)) = [1, 2, 3, 4, 5] \<and>
      (5, 2) \<in> set (edgePairs (edges out)) \<and>
      ancestor (edges out) 3 5 = Some 0"
    using b g ls a' m an by (intro conjI)
  then have small: "\<exists>s out. buildNodes codeUnitCompare sampleTree = Inr s \<and>
      generate codeUnitCompare sampleTree = Inr out \<and>
      length (bnodes s) \<le> MAX_NODES \<and>
      map fst (edgePairs (edges out)) = [1, 2, 3, 4, 5] \<and>
      (5, 2) \<in> set (edgePairs (edges out)) \<and>
      ancestor (edges out) 3 5 = Some 0"
    by (intro exI)
  from single_rooted_tree [of codeUnitCompare listedTree]
  obtain big where gb: "generate codeUnitCompare listedTree = Inr big"
    and tb: "parentsListed listedTree \<and> consistentOn (map path (dirs listedTree)) codeUnitCompare \<and>
        parentsSortFirst codeUnitCompare listedTree \<longrightarrow>
        map fst (edgePairs (edges big)) = [1 ..< length (nodes big)] \<and>
        length (edges big) = 2 * (length (nodes big) - 1) \<and>
        (\<forall>(c, q) \<in> set (edgePairs (edges big)). q < c) \<and>
        (\<forall>i < length (nodes big). \<exists>k \<le> i. ancestor (edges big) k i = Some 0)"
    by blast
  from tb parentsListed_listedTree consistent_dirs_listedTree parentsSortFirst_listedTree
  have ab: "map fst (edgePairs (edges big)) = [1 ..< length (nodes big)]"
    and cb: "length (edges big) = 2 * (length (nodes big) - 1)"
    by blast+
  from gb have "nodes big = take MAX_NODES (bnodes (final codeUnitCompare listedTree))"
    by (auto simp: generate_final)
  then have lb: "length (nodes big) = 2500"
    by (simp add: length_final_listedTree MAX_NODES_def)
  have "generate codeUnitCompare listedTree = Inr big \<and>
      length (nodes big) = 2500 \<and> length (edges big) = 4998 \<and>
      map fst (edgePairs (edges big)) = [1 ..< 2500]"
    using gb lb ab cb by simp
  then have large: "\<exists>out. generate codeUnitCompare listedTree = Inr out \<and>
      length (nodes out) = 2500 \<and> length (edges out) = 4998 \<and>
      map fst (edgePairs (edges out)) = [1 ..< 2500]"
    by (rule exI)
  let ?o = "[\<lparr>path = ''docs/readme'', type = ''blob''\<rparr>]"
  from single_rooted_tree [of codeUnitCompare ?o]
  obtain s' o' where bo: "buildNodes codeUnitCompare ?o = Inr s'"
    and go: "generate codeUnitCompare ?o = Inr o'"
    and uo: "\<forall>i. 0 < i \<and> i < length (nodes o') \<and> dirMap s' (parentKey (p (nodes o' ! i))) = None \<longrightarrow>
        i \<notin> fst ` set (edgePairs (edges o'))"
    by blast
  have "generate codeUnitCompare ?o = Inr \<lparr>nodes =
            [\<lparr>t = ''r'', p = ''/'', id' = 0, pid = None\<rparr>,
             \<lparr>t = ''f'', p = ''docs/readme'', id' = 1, pid = None\<rparr>],
          edges = []\<rparr>" by code_simp
  with go have o': "o' = \<lparr>nodes =
            [\<lparr>t = ''r'', p = ''/'', id' = 0, pid = None\<rparr>,
             \<lparr>t = ''f'', p = ''docs/readme'', id' = 1, pid = None\<rparr>],
          edges = []\<rparr>" by simp
  from bo have s': "s' = final codeUnitCompare ?o" by (simp add: buildNodes_final)
  have lo: "length (nodes o') = 2" unfolding o' by simp
  have k: "parentKey (p (nodes o' ! 1)) = ''docs''" unfolding o' by code_simp
  have dn: "dirMap s' ''docs'' = None" unfolding s' by code_simp
  have d1: "dirMap s' (parentKey (p (nodes o' ! 1))) = None" by (simp only: k dn)
  from uo [THEN spec [where x = 1]] lo d1 have n1: "1 \<notin> fst ` set (edgePairs (edges o'))" by simp
  from bo go lo d1 n1 have orphan: "\<exists>s out. buildNodes codeUnitCompare ?o = Inr s \<and>
      generate codeUnitCompare ?o = Inr out \<and>
      length (nodes out) = 2 \<and>
      dirMap s (parentKey (p (nodes out ! 1))) = None \<and>
      1 \<notin> fst ` set (edgePairs (edges out))" by (intro exI conjI)
  from parentsListed_sample consistent_dirs_sample parentsSortFirst_sample small
    parentsListed_listedTree consistent_dirs_listedTree parentsSortFirst_listedTree large orphan
  show ?thesis by (intro conjI)
qed

subsection \<open>Trimming\<close>

text \<open>
  C1. Generation succeeds and the nodes written are the first \<open>MAX_NODES\<close> nodes built.
  Take the edge list of the first loop, over all nodes built, as the tree before trimming.
  Every parent link in it of a file node, and every parent link in it at all when the
  locale comparison is consistent on the paths of the listed directories and puts each
  listed directory before the directories directly in it, leads to a node of smaller
  index: so trimming, which keeps the first nodes, excludes a node only together with all
  nodes below it; and such a link is in the rebuilt edge list whenever its child is kept.
  The rebuilt edge list holds no other link: no node is re-parented. Hence, under the same
  condition on the locale comparison, if every non-root node had a parent link before
  trimming, every kept non-root node has its parent link after it.
\<close>

theorem trimming_preserves_tree:
  "\<exists>s out. buildNodes lc tree = Inr s \<and> generate lc tree = Inr out \<and>
     nodes out = take MAX_NODES (bnodes s) \<and>
     (\<forall>(c, q) \<in> set (edgePairs (buildEdges (bnodes s) (dirMap s))).
        t (bnodes s ! c) = ''f'' \<or>
        (consistentOn (map path (dirs tree)) lc \<and> parentsSortFirst lc tree) \<longrightarrow>
          q < c \<and> (c < length (nodes out) \<longrightarrow> (c, q) \<in> set (edgePairs (edges out)))) \<and>
     set (edgePairs (edges out)) \<subseteq> set (edgePairs (buildEdges (bnodes s) (dirMap s))) \<and>
     (consistentOn (map path (dirs tree)) lc \<and> parentsSortFirst lc tree \<and>
      map fst (edgePairs (buildEdges (bnodes s) (dirMap s))) = [1 ..< length (bnodes s)] \<longrightarrow>
        map fst (edgePairs (edges out)) = [1 ..< length (nodes out)])"
proof -
  let ?s = "final lc tree"
  let ?ns = "take MAX_NODES (bnodes ?s)"
  let ?es = "rebuildEdges ?ns (dirMap ?s)"
  let ?raw = "buildEdges (bnodes ?s) (dirMap ?s)"
  let ?out = "\<lparr>nodes = ?ns, edges = ?es\<rparr>"
  let ?H = "consistentOn (map path (dirs tree)) lc \<and> parentsSortFirst lc tree"
  have sel: "nodes ?out = ?ns" "edges ?out = ?es" by simp_all
  have link: "q < c \<and> (c < length ?ns \<longrightarrow> (c, q) \<in> set (edgePairs ?es))"
    if e: "(c, q) \<in> set (edgePairs ?raw)" and h: "t (bnodes ?s ! c) = ''f'' \<or> ?H" for c q
  proof -
    from e have c: "0 < c" "c < length (bnodes ?s)"
      and d: "dirMap ?s (parentKey (p (bnodes ?s ! c))) = Some q"
      by (simp_all add: in_raw_edges)
    have qc: "q < c" using node_rule(1) [OF c h] d by simp
    have "(c, q) \<in> set (edgePairs ?es)" if "c < length ?ns"
      unfolding in_kept_edges using that c d qc by simp
    with qc show ?thesis by simp
  qed
  have sub: "set (edgePairs ?es) \<subseteq> set (edgePairs ?raw)"
  proof
    fix x
    assume x: "x \<in> set (edgePairs ?es)"
    obtain c q where xc: "x = (c, q)" by (cases x)
    then have "1 \<le> c \<and> c < length ?ns \<and> q < length ?ns \<and>
        dirMap ?s (parentKey (p (bnodes ?s ! c))) = Some q"
      using x by (simp only: in_kept_edges)
    then have "(c, q) \<in> set (edgePairs ?raw)" by (simp add: in_raw_edges)
    then show "x \<in> set (edgePairs ?raw)" by (simp only: xc)
  qed
  have full: "map fst (edgePairs ?es) = [1 ..< length ?ns]"
    if H: "?H" and r: "map fst (edgePairs ?raw) = [1 ..< length (bnodes ?s)]"
  proof -
    have kept: "keptParent ?ns (dirMap ?s) i \<noteq> None" if i: "i \<in> set [1 ..< length ?ns]" for i
    proof -
      have i1: "1 \<le> i" and il: "i < length ?ns" using i by simp_all
      then have "i \<in> set [1 ..< length (bnodes ?s)]" by simp
      then have "i \<in> set (map fst (edgePairs ?raw))" by (simp only: r)
      then obtain q where "(i, q) \<in> set (edgePairs ?raw)" by auto
      then have "(i, q) \<in> set (edgePairs ?es)" using link H il by blast
      then show ?thesis by (simp add: in_edgePairs_rebuildEdges del: length_take)
    qed
    show ?thesis
      unfolding children_rebuildEdges using kept by (simp only: filter_id_conv) blast
  qed
  show ?thesis
  proof (intro exI conjI ballI)
    show "buildNodes lc tree = Inr ?s" by (rule buildNodes_final)
    show "generate lc tree = Inr ?out" by (rule generate_final)
    show "nodes ?out = take MAX_NODES (bnodes ?s)" by simp
    show "set (edgePairs (edges ?out)) \<subseteq> set (edgePairs ?raw)" unfolding sel by (rule sub)
    show "consistentOn (map path (dirs tree)) lc \<and> parentsSortFirst lc tree \<and>
        map fst (edgePairs ?raw) = [1 ..< length (bnodes ?s)] \<longrightarrow>
        map fst (edgePairs (edges ?out)) = [1 ..< length (nodes ?out)]"
      unfolding sel using full by blast
  next
    fix x
    assume x: "x \<in> set (edgePairs ?raw)"
    show "case x of (c, q) \<Rightarrow>
        t (bnodes ?s ! c) = ''f'' \<or> ?H \<longrightarrow>
          q < c \<and> (c < length (nodes ?out) \<longrightarrow> (c, q) \<in> set (edgePairs (edges ?out)))"
    proof (cases x)
      case (Pair c q)
      then have "(c, q) \<in> set (edgePairs ?raw)" using x by simp
      then show ?thesis unfolding Pair sel using link by simp
    qed
  qed
qed

text \<open>
  \<open>listedTree\<close> gives 2502 nodes, each non-root node with a parent link; 2500 are kept,
  each non-root node of them with its parent link, such as the last one, 2499.
\<close>

theorem trimming_preserves_tree_witness:
  "consistentOn (map path (dirs listedTree)) codeUnitCompare \<and>
   parentsSortFirst codeUnitCompare listedTree \<and>
   (\<exists>s out. buildNodes codeUnitCompare listedTree = Inr s \<and>
      generate codeUnitCompare listedTree = Inr out \<and>
      length (bnodes s) = 2502 \<and> length (nodes out) = 2500 \<and>
      map fst (edgePairs (buildEdges (bnodes s) (dirMap s))) = [1 ..< 2502] \<and>
      map fst (edgePairs (edges out)) = [1 ..< 2500] \<and>
      (\<exists>q. (2499, q) \<in> set (edgePairs (buildEdges (bnodes s) (dirMap s))) \<and> q < 2499 \<and>
         (2499, q) \<in> set (edgePairs (edges out))))"
proof -
  let ?H = "consistentOn (map path (dirs listedTree)) codeUnitCompare \<and>
            parentsSortFirst codeUnitCompare listedTree"
  have H: ?H using consistent_dirs_listedTree parentsSortFirst_listedTree by simp
  from trimming_preserves_tree [of codeUnitCompare listedTree]
  obtain s out where b: "buildNodes codeUnitCompare listedTree = Inr s"
    and g: "generate codeUnitCompare listedTree = Inr out"
    and n: "nodes out = take MAX_NODES (bnodes s)"
    and a: "\<forall>(c, q) \<in> set (edgePairs (buildEdges (bnodes s) (dirMap s))).
        t (bnodes s ! c) = ''f'' \<or> ?H \<longrightarrow>
          q < c \<and> (c < length (nodes out) \<longrightarrow> (c, q) \<in> set (edgePairs (edges out)))"
    and f: "consistentOn (map path (dirs listedTree)) codeUnitCompare \<and>
        parentsSortFirst codeUnitCompare listedTree \<and>
        map fst (edgePairs (buildEdges (bnodes s) (dirMap s))) = [1 ..< length (bnodes s)] \<longrightarrow>
        map fst (edgePairs (edges out)) = [1 ..< length (nodes out)]"
    by blast
  from b have s: "s = final codeUnitCompare listedTree" by (simp add: buildNodes_final)
  have l: "length (bnodes s) = 2502" unfolding s by (rule length_final_listedTree)
  have lo: "length (nodes out) = 2500" unfolding n by (simp add: l MAX_NODES_def)
  have r: "map fst (edgePairs (buildEdges (bnodes s) (dirMap s))) = [1 ..< length (bnodes s)]"
    unfolding s by (rule raw_complete [OF parentsListed_listedTree])
  from f H r have k: "map fst (edgePairs (edges out)) = [1 ..< length (nodes out)]" by blast
  have "2499 \<in> set [1 ..< length (bnodes s)]" by (simp add: l)
  then have "2499 \<in> set (map fst (edgePairs (buildEdges (bnodes s) (dirMap s))))"
    by (simp only: r)
  then obtain q where q: "(2499, q) \<in> set (edgePairs (buildEdges (bnodes s) (dirMap s)))" by auto
  with a H have "q < 2499 \<and> (2499 < length (nodes out) \<longrightarrow> (2499, q) \<in> set (edgePairs (edges out)))"
    by blast
  then have "q < 2499 \<and> (2499, q) \<in> set (edgePairs (edges out))" by (simp add: lo)
  with q have e: "\<exists>q. (2499, q) \<in> set (edgePairs (buildEdges (bnodes s) (dirMap s))) \<and> q < 2499 \<and>
         (2499, q) \<in> set (edgePairs (edges out))" by blast
  have r': "map fst (edgePairs (buildEdges (bnodes s) (dirMap s))) = [1 ..< 2502]"
    using r by (simp only: l)
  have k': "map fst (edgePairs (edges out)) = [1 ..< 2500]" using k by (simp only: lo)
  from b g l lo r' k' e have "\<exists>s out. buildNodes codeUnitCompare listedTree = Inr s \<and>
      generate codeUnitCompare listedTree = Inr out \<and>
      length (bnodes s) = 2502 \<and> length (nodes out) = 2500 \<and>
      map fst (edgePairs (buildEdges (bnodes s) (dirMap s))) = [1 ..< 2502] \<and>
      map fst (edgePairs (edges out)) = [1 ..< 2500] \<and>
      (\<exists>q. (2499, q) \<in> set (edgePairs (buildEdges (bnodes s) (dirMap s))) \<and> q < 2499 \<and>
         (2499, q) \<in> set (edgePairs (edges out)))" by blast
  with consistent_dirs_listedTree parentsSortFirst_listedTree show ?thesis by (intro conjI)
qed

subsection \<open>The node cap and the order of the nodes\<close>

text \<open>
  When the comparison function is consistent on the fetched entries, the cap works as
  the comment of the script says: the nodes built are the root, then the directory
  entries, then the file entries, each group a rearrangement of the listed entries of its
  type in ascending order of the locale comparison of their paths; the nodes written are
  the first 2500 of these (all of them when there are no more), so at most 2500; and the
  edge list is the one the rebuilding loop gives for the written nodes, every number in it
  below their count.
\<close>

lemma node_cap_consistent:
  assumes "consistentOn tree (compareEntries lc)"
  shows "\<exists>s out ds fs. buildNodes lc tree = Inr s \<and> generate lc tree = Inr out \<and>
     mset ds = mset (dirs tree) \<and> mset fs = mset (files tree) \<and>
     sorted_wrt (\<lambda>a b. lc (path a) (path b) \<le> 0) ds \<and>
     sorted_wrt (\<lambda>a b. lc (path a) (path b) \<le> 0) fs \<and>
     map p (bnodes s) = ''/'' # map path ds @ map path fs \<and>
     map t (bnodes s) = ''r'' # replicate (length ds) ''d'' @ replicate (length fs) ''f'' \<and>
     nodes out = take 2500 (bnodes s) \<and> length (nodes out) \<le> 2500 \<and>
     edges out = rebuildEdges (nodes out) (dirMap s) \<and>
     (\<forall>x \<in> set (edges out). x < length (nodes out))"
proof -
  let ?E = "arraySort (compareEntries lc) tree"
  let ?s = "final lc tree"
  let ?ns = "take MAX_NODES (bnodes ?s)"
  let ?es = "rebuildEdges ?ns (dirMap ?s)"
  let ?out = "\<lparr>nodes = ?ns, edges = ?es\<rparr>"
  have sel: "nodes ?out = ?ns" "edges ?out = ?es" by simp_all
  show ?thesis
  proof (intro exI conjI)
    show "buildNodes lc tree = Inr ?s" by (rule buildNodes_final)
    show "generate lc tree = Inr ?out" by (rule generate_final)
    show "mset (dirs ?E) = mset (dirs tree)" by (rule mset_dirs_arraySort)
    show "mset (files ?E) = mset (files tree)" by (rule mset_files_arraySort)
    show "sorted_wrt (\<lambda>a b. lc (path a) (path b) \<le> 0) (dirs ?E)" by (rule sorted_dirs [OF assms])
    show "sorted_wrt (\<lambda>a b. lc (path a) (path b) \<le> 0) (files ?E)" by (rule sorted_files [OF assms])
    show "map p (bnodes ?s) = ''/'' # map path (dirs ?E) @ map path (files ?E)" by (rule paths_final)
    show "map t (bnodes ?s) = ''r'' # replicate (length (dirs ?E)) ''d'' @ replicate (length (files ?E)) ''f''"
      by (rule kinds_final)
    show "nodes ?out = take 2500 (bnodes ?s)" by (simp add: MAX_NODES_def)
    show "length (nodes ?out) \<le> 2500" by (simp add: MAX_NODES_def)
    show "edges ?out = rebuildEdges (nodes ?out) (dirMap ?s)" by simp
    show "\<forall>x \<in> set (edges ?out). x < length (nodes ?out)"
      unfolding sel using set_rebuildEdges by blast
  qed
qed

lemma successively_map_upt:
  "(\<And>i. Suc i < n \<Longrightarrow> P (f i) (f (Suc i))) \<Longrightarrow> successively P (map f [0 ..< n])"
proof (induction n)
  case 0
  then show ?case by simp
next
  case (Suc n)
  have "successively P (map f [0 ..< n])" using Suc by simp
  moreover have "P (last (map f [0 ..< n])) (f n)" if pos: "0 < n"
  proof -
    obtain m where m: "n = Suc m" using pos by (cases n) auto
    then have "last (map f [0 ..< n]) = f m" by simp
    then show ?thesis using Suc.prems [of m] m by simp
  qed
  ultimately show ?case by (auto simp: successively_append_iff)
qed

lemma codeUnitCompare_longer:
  "codeUnitCompare (c # replicate m c) (replicate m c) = 1"
  by (induction m) simp_all

lemma unsortedTree_run:
  "successively (\<lambda>a b. \<not> compareEntries codeUnitCompare b a < 0) unsortedTree"
proof -
  let ?f = "\<lambda>k. \<lparr>path = replicate (Suc k) CHR ''c'', type = ''blob''\<rparr>"
  let ?P = "\<lambda>a b. \<not> compareEntries codeUnitCompare b a < 0"
  have tail: "successively ?P (map ?f [0 ..< 2498])"
    by (rule successively_map_upt) (simp add: compareEntries_def codeUnitCompare_longer)
  have "[0 ..< 2498] = 0 # [Suc 0 ..< 2498]"
    by (rule upt_conv_Cons) simp
  then have hd: "map ?f [0 ..< 2498] = ?f 0 # map ?f [Suc 0 ..< 2498]"
    by (simp only: list.map)
  have "successively ?P (\<lparr>path = ''a'', type = ''blob''\<rparr> # map ?f [0 ..< 2498])"
    using tail unfolding hd by (simp add: compareEntries_def)
  then show ?thesis
    by (simp add: unsortedTree_def compareEntries_def)
qed

lemma files_unsortedTree:
  "map path (files unsortedTree) =
     ''b'' # ''a'' # map (\<lambda>k. replicate (Suc k) CHR ''c'') [0 ..< 2498]"
  by (simp add: unsortedTree_def files_def comp_def)

lemma dirs_unsortedTree: "dirs unsortedTree = []"
  by (simp add: unsortedTree_def dirs_def)

lemma paths_unsortedTree:
  "map p (bnodes (final codeUnitCompare unsortedTree)) =
     ''/'' # ''b'' # ''a'' # map (\<lambda>k. replicate (Suc k) CHR ''c'') [0 ..< 2498]"
  by (simp only: paths_final arraySort_run [OF unsortedTree_run] dirs_unsortedTree files_unsortedTree)
    simp

text \<open>
  C5 does not hold of the script when an entry of a third type stands between two files.
  The comparison function answers 1 for a \<open>blob\<close> against a \<open>commit\<close> entry in both
  orders, so the sort takes the listing \<open>b\<close>, \<open>s\<close> (a submodule), \<open>a\<close> for an ascending run
  and leaves it: the file \<open>b\<close> gets its node before the file \<open>a\<close>, which the locale
  comparison puts first. The same happens when nodes are trimmed: \<open>unsortedTree\<close> starts
  with these three entries and gives 2501 nodes, and the 2500 nodes kept start with the
  root, \<open>b\<close>, \<open>a\<close>. So the files kept are not in alphabetical order, against the comment
  of the script (directories first, then files, alphabetically).
\<close>

theorem files_out_of_order:
  "generate codeUnitCompare
     [\<lparr>path = ''b'', type = ''blob''\<rparr>, \<lparr>path = ''s'', type = ''commit''\<rparr>,
      \<lparr>path = ''a'', type = ''blob''\<rparr>] =
     Inr \<lparr>nodes =
            [\<lparr>t = ''r'', p = ''/'', id' = 0, pid = None\<rparr>,
             \<lparr>t = ''f'', p = ''b'', id' = 1, pid = None\<rparr>,
             \<lparr>t = ''f'', p = ''a'', id' = 2, pid = None\<rparr>],
          edges = [1, 0, 2, 0]\<rparr> \<and>
   codeUnitCompare ''a'' ''b'' < 0 \<and>
   (\<exists>s out. buildNodes codeUnitCompare unsortedTree = Inr s \<and>
      generate codeUnitCompare unsortedTree = Inr out \<and>
      length (bnodes s) = 2501 \<and> length (nodes out) = 2500 \<and>
      map p (take 3 (nodes out)) = [''/'', ''b'', ''a''])"
proof -
  have small: "generate codeUnitCompare
     [\<lparr>path = ''b'', type = ''blob''\<rparr>, \<lparr>path = ''s'', type = ''commit''\<rparr>,
      \<lparr>path = ''a'', type = ''blob''\<rparr>] =
     Inr \<lparr>nodes =
            [\<lparr>t = ''r'', p = ''/'', id' = 0, pid = None\<rparr>,
             \<lparr>t = ''f'', p = ''b'', id' = 1, pid = None\<rparr>,
             \<lparr>t = ''f'', p = ''a'', id' = 2, pid = None\<rparr>],
          edges = [1, 0, 2, 0]\<rparr>"
    by code_simp
  have lt: "codeUnitCompare ''a'' ''b'' < 0" by code_simp
  let ?s = "final codeUnitCompare unsortedTree"
  let ?out = "\<lparr>nodes = take MAX_NODES (bnodes ?s),
               edges = rebuildEdges (take MAX_NODES (bnodes ?s)) (dirMap ?s)\<rparr>"
  have "length (map p (bnodes ?s)) = 2501" by (simp only: paths_unsortedTree) simp
  then have l: "length (bnodes ?s) = 2501" by simp
  have lo: "length (nodes ?out) = 2500" by (simp add: l MAX_NODES_def)
  have "map p (take 3 (nodes ?out)) = take 3 (map p (bnodes ?s))"
    by (simp add: take_map MAX_NODES_def)
  also have "\<dots> = [''/'', ''b'', ''a'']" by (simp only: paths_unsortedTree) simp
  finally have ps: "map p (take 3 (nodes ?out)) = [''/'', ''b'', ''a'']" .
  have big: "\<exists>s out. buildNodes codeUnitCompare unsortedTree = Inr s \<and>
      generate codeUnitCompare unsortedTree = Inr out \<and>
      length (bnodes s) = 2501 \<and> length (nodes out) = 2500 \<and>
      map p (take 3 (nodes out)) = [''/'', ''b'', ''a'']"
  proof (intro exI conjI)
    show "buildNodes codeUnitCompare unsortedTree = Inr ?s" by (rule buildNodes_final)
    show "generate codeUnitCompare unsortedTree = Inr ?out" by (rule generate_final)
    show "length (bnodes ?s) = 2501" by (rule l)
    show "length (nodes ?out) = 2500" by (rule lo)
    show "map p (take 3 (nodes ?out)) = [''/'', ''b'', ''a'']" by (rule ps)
  qed
  from small lt big show ?thesis by (intro conjI)
qed

subsection \<open>One order for one set of entries\<close>

lemma sorted_wrt_mset_unique:
  "sorted_wrt R xs \<Longrightarrow> sorted_wrt R ys \<Longrightarrow> mset xs = mset ys \<Longrightarrow>
     (\<forall>a \<in> set xs. \<forall>b \<in> set xs. R a b \<and> R b a \<longrightarrow> a = b) \<Longrightarrow> xs = ys"
proof (induction xs arbitrary: ys)
  case Nil
  then show ?case by simp
next
  case (Cons x xs)
  from Cons.prems(3) obtain y ys' where ys: "ys = y # ys'"
    by (cases ys) auto
  have "set_mset (mset (x # xs)) = set_mset (mset (y # ys'))"
    using Cons.prems(3) ys by (simp only:)
  then have sets: "set (x # xs) = set (y # ys')"
    by (simp only: set_mset_mset)
  have xy: "x = y"
  proof (rule ccontr)
    assume ne: "x \<noteq> y"
    then have "x \<in> set ys'" using sets by auto
    then have r1: "R y x" using Cons.prems(2) ys by simp
    have "y \<in> set xs" using ne sets by auto
    then have r2: "R x y" using Cons.prems(1) by simp
    have "y \<in> set (x # xs)" using sets by simp
    then show False using r1 r2 ne Cons.prems(4) by auto
  qed
  have "sorted_wrt R xs" using Cons.prems(1) by simp
  moreover have "sorted_wrt R ys'" using Cons.prems(2) ys by simp
  moreover have "mset xs = mset ys'" using Cons.prems(3) ys xy by simp
  moreover have "\<forall>a \<in> set xs. \<forall>b \<in> set xs. R a b \<and> R b a \<longrightarrow> a = b"
    using Cons.prems(4) by simp
  ultimately have "xs = ys'" by (rule Cons.IH)
  then have "x # xs = y # ys'" using xy by (simp only:)
  then show ?case by (simp only: ys)
qed

lemma arraySort_mset:
  assumes m: "mset xs = mset ys" and c: "consistentOn xs cmp" and e: "tiesAreEqual xs cmp"
  shows "arraySort cmp xs = arraySort cmp ys"
proof -
  have "set_mset (mset xs) = set_mset (mset ys)" using m by (simp only:)
  then have s: "set xs = set ys" by (simp only: set_mset_mset)
  have anti: "\<forall>a \<in> set (arraySort cmp xs). \<forall>b \<in> set (arraySort cmp xs).
      cmp a b \<le> 0 \<and> cmp b a \<le> 0 \<longrightarrow> a = b"
  proof (intro ballI impI)
    fix a b
    assume a: "a \<in> set (arraySort cmp xs)" and b: "b \<in> set (arraySort cmp xs)"
      and le: "cmp a b \<le> 0 \<and> cmp b a \<le> 0"
    then have ab: "a \<in> set xs" "b \<in> set xs" by (simp_all add: set_arraySort)
    have "\<not> cmp a b < 0" using consistentOn_strict [OF c ab] le by blast
    then have "cmp a b = 0" using le by simp
    then show "a = b" using e ab by (simp add: tiesAreEqual_def)
  qed
  show ?thesis
  proof (rule sorted_wrt_mset_unique [OF _ _ _ anti])
    show "sorted_wrt (\<lambda>a b. cmp a b \<le> 0) (arraySort cmp xs)" by (rule sorted_arraySort [OF c])
    show "sorted_wrt (\<lambda>a b. cmp a b \<le> 0) (arraySort cmp ys)"
      by (rule sorted_arraySort [OF consistentOn_set [OF s c]])
    show "mset (arraySort cmp xs) = mset (arraySort cmp ys)" by (simp add: mset_arraySort m)
  qed
qed

text \<open>
  When the comparison function is consistent on the entries and only identical entries
  tie, the order of the nodes is fixed by the comparison alone: two listings of the same
  entries in any order give the same contents of both files.
\<close>

lemma contents_of_same_entries:
  assumes "mset t1 = mset t2" and "consistentOn t1 (compareEntries lc)"
    and "tiesAreEqual t1 (compareEntries lc)"
  shows "fileContents lc t1 = fileContents lc t2"
proof -
  have "arraySort (compareEntries lc) t1 = arraySort (compareEntries lc) t2"
    by (rule arraySort_mset [OF assms])
  then have "buildNodes lc t1 = buildNodes lc t2" by (simp add: buildNodes_def)
  then show ?thesis by (simp add: fileContents_def generate_def)
qed

text \<open>
  C7 does not hold of the script for the same reason as C5: the order in which the file
  nodes are written is not fixed by the comparison. Take a comparison that ignores case.
  The listing \<open>.gitmodules\<close>, \<open>LICENSE\<close>, \<open>Vendor\<close> (a submodule), \<open>app.js\<close>, which is in the
  order of a git tree, is one ascending run for the comparison function, so the sort leaves
  it and \<open>nodes.js\<close> has \<open>LICENSE\<close> before \<open>app.js\<close>, although the comparison puts \<open>app.js\<close>
  first. The same four entries with the submodule listed last are sorted, and \<open>nodes.js\<close>
  has \<open>app.js\<close> first. The theorem gives the contents of both files in both cases.
\<close>

theorem order_depends_on_listing:
  \<open>fileContents caseFoldCompare
     [\<lparr>path = ''.gitmodules'', type = ''blob''\<rparr>, \<lparr>path = ''LICENSE'', type = ''blob''\<rparr>,
      \<lparr>path = ''Vendor'', type = ''commit''\<rparr>, \<lparr>path = ''app.js'', type = ''blob''\<rparr>] =
     Inr (''export const nodes = [\<newline>  [\<newline>'' @
          ''    {"t":"r","p":"/","id":0},\<newline>'' @
          ''    {"t":"f","p":".gitmodules","id":1},\<newline>'' @
          ''    {"t":"f","p":"LICENSE","id":2},\<newline>'' @
          ''    {"t":"f","p":"app.js","id":3}\<newline>'' @
          ''  ]\<newline>]\<newline>'',
          ''export const edges = [1, 0, 2, 0, 3, 0]\<newline>'') \<and>
   caseFoldCompare ''app.js'' ''LICENSE'' < 0 \<and>
   fileContents caseFoldCompare
     [\<lparr>path = ''.gitmodules'', type = ''blob''\<rparr>, \<lparr>path = ''LICENSE'', type = ''blob''\<rparr>,
      \<lparr>path = ''app.js'', type = ''blob''\<rparr>, \<lparr>path = ''Vendor'', type = ''commit''\<rparr>] =
     Inr (''export const nodes = [\<newline>  [\<newline>'' @
          ''    {"t":"r","p":"/","id":0},\<newline>'' @
          ''    {"t":"f","p":".gitmodules","id":1},\<newline>'' @
          ''    {"t":"f","p":"app.js","id":2},\<newline>'' @
          ''    {"t":"f","p":"LICENSE","id":3}\<newline>'' @
          ''  ]\<newline>]\<newline>'',
          ''export const edges = [1, 0, 2, 0, 3, 0]\<newline>'')\<close>
  by code_simp

subsection \<open>Exit status and files\<close>

lemma ghFetch_fails: "requestFails net u \<Longrightarrow> \<exists>err. ghFetch net u = Inl err"
  by (auto simp: requestFails_def ghFetch_def split: reply.splits)

lemma ghFetch_Inr: "ghFetch net u = Inr b \<longleftrightarrow> \<not> invalidPath u \<and> net u = Reply 200 (Some b)"
  by (auto simp: ghFetch_def split: reply.splits option.splits)

lemma ghFetch_Inr_ok: "ghFetch net u = Inr b \<Longrightarrow> \<not> requestFails net u"
  by (simp add: ghFetch_Inr requestFails_def)

lemma set_asked: "set (asked u) \<subseteq> {u}"
  by (simp add: asked_def)

lemma writeFiles_requested: "requested (writeFiles writable reqs out) = reqs"
  by (simp add: writeFiles_def failed_def)

lemma writeFiles_written:
  "written (writeFiles writable reqs out) \<noteq> [] \<Longrightarrow>
     hd (written (writeFiles writable reqs out)) = (nodesFile, nodesContent (nodes out))"
  by (simp add: writeFiles_def failed_def split: if_splits)

lemma buildAndWrite_requested: "requested (buildAndWrite lc writable reqs treeData) = reqs"
  by (simp add: buildAndWrite_def failed_def writeFiles_requested split: option.splits sum.splits)

lemma buildAndWrite_written:
  assumes "written (buildAndWrite lc writable reqs treeData) \<noteq> []"
  shows "\<exists>tr out. tree' treeData = Some tr \<and> generate lc tr = Inr out \<and>
     hd (written (buildAndWrite lc writable reqs treeData)) = (nodesFile, nodesContent (nodes out))"
proof (cases "tree' treeData")
  case None
  then show ?thesis using assms by (simp add: buildAndWrite_def failed_def)
next
  case (Some tr)
  show ?thesis
  proof (cases "generate lc tr")
    case (Inl err)
    then show ?thesis using assms Some by (simp add: buildAndWrite_def failed_def)
  next
    case (Inr out)
    then have "buildAndWrite lc writable reqs treeData = writeFiles writable reqs out"
      using Some by (simp add: buildAndWrite_def)
    then show ?thesis using assms Some Inr writeFiles_written by simp
  qed
qed

lemma fetchTree_requested:
  "requested (fetchTree lc net writable repoUrl reqs ref) =
     reqs @ asked (repoUrl @ ''/git/trees/'' @ ref @ ''?recursive=1'')"
  by (simp add: fetchTree_def Let_def failed_def buildAndWrite_requested split: sum.splits)

lemma fetchTree_fails:
  assumes "requestFails net (repoUrl @ ''/git/trees/'' @ ref @ ''?recursive=1'')"
  shows "fetchTree lc net writable repoUrl reqs ref =
     failed (reqs @ asked (repoUrl @ ''/git/trees/'' @ ref @ ''?recursive=1'')) []"
proof -
  obtain err where "ghFetch net (repoUrl @ ''/git/trees/'' @ ref @ ''?recursive=1'') = Inl err"
    using ghFetch_fails [OF assms] by blast
  then show ?thesis by (simp add: fetchTree_def Let_def)
qed

lemma fetchTree_written:
  assumes "written (fetchTree lc net writable repoUrl reqs ref) \<noteq> []"
  shows "\<exists>b tr out. \<not> invalidPath (repoUrl @ ''/git/trees/'' @ ref @ ''?recursive=1'') \<and>
     net (repoUrl @ ''/git/trees/'' @ ref @ ''?recursive=1'') = Reply 200 (Some b) \<and>
     tree' b = Some tr \<and> generate lc tr = Inr out \<and>
     hd (written (fetchTree lc net writable repoUrl reqs ref)) = (nodesFile, nodesContent (nodes out))"
proof (cases "ghFetch net (repoUrl @ ''/git/trees/'' @ ref @ ''?recursive=1'')")
  case (Inl err)
  then show ?thesis using assms by (simp add: fetchTree_def Let_def failed_def)
next
  case (Inr b)
  then have eq: "fetchTree lc net writable repoUrl reqs ref =
      buildAndWrite lc writable (reqs @ asked (repoUrl @ ''/git/trees/'' @ ref @ ''?recursive=1'')) b"
    by (simp add: fetchTree_def Let_def)
  from Inr have "\<not> invalidPath (repoUrl @ ''/git/trees/'' @ ref @ ''?recursive=1'') \<and>
      net (repoUrl @ ''/git/trees/'' @ ref @ ''?recursive=1'') = Reply 200 (Some b)"
    unfolding ghFetch_Inr .
  moreover obtain tr out where "tree' b = Some tr" "generate lc tr = Inr out"
    "hd (written (fetchTree lc net writable repoUrl reqs ref)) = (nodesFile, nodesContent (nodes out))"
    using buildAndWrite_written assms unfolding eq by blast
  ultimately show ?thesis by blast
qed

lemma main_outcome:
  "(\<exists>ref. main lc net writable owner repo branch =
        fetchTree lc net writable (''/repos/'' @ owner @ ''/'' @ repo) [] ref) \<or>
   (requestFails net (''/repos/'' @ owner @ ''/'' @ repo) \<and>
      main lc net writable owner repo branch = failed (asked (''/repos/'' @ owner @ ''/'' @ repo)) []) \<or>
   (\<not> requestFails net (''/repos/'' @ owner @ ''/'' @ repo) \<and>
      (main lc net writable owner repo branch = failed (asked (''/repos/'' @ owner @ ''/'' @ repo)) [] \<or>
       (\<exists>ref. main lc net writable owner repo branch =
          fetchTree lc net writable (''/repos/'' @ owner @ ''/'' @ repo)
            (asked (''/repos/'' @ owner @ ''/'' @ repo)) ref)))"
proof (cases "case branch of None \<Rightarrow> None | Some b \<Rightarrow> if b = [] then None else Some b")
  case (Some ref)
  then have "main lc net writable owner repo branch =
      fetchTree lc net writable (''/repos/'' @ owner @ ''/'' @ repo) [] ref"
    by (simp add: main_def Let_def)
  then show ?thesis by blast
next
  case None
  show ?thesis
  proof (cases "requestFails net (''/repos/'' @ owner @ ''/'' @ repo)")
    case True
    then obtain err where "ghFetch net (''/repos/'' @ owner @ ''/'' @ repo) = Inl err"
      using ghFetch_fails by blast
    then have "main lc net writable owner repo branch = failed (asked (''/repos/'' @ owner @ ''/'' @ repo)) []"
      using None by (simp add: main_def Let_def getDefaultBranch_def)
    then show ?thesis using True by blast
  next
    case False
    have "main lc net writable owner repo branch = failed (asked (''/repos/'' @ owner @ ''/'' @ repo)) [] \<or>
       (\<exists>ref. main lc net writable owner repo branch =
          fetchTree lc net writable (''/repos/'' @ owner @ ''/'' @ repo)
            (asked (''/repos/'' @ owner @ ''/'' @ repo)) ref)"
    proof (cases "getDefaultBranch net owner repo")
      case (Inl err)
      then have "main lc net writable owner repo branch = failed (asked (''/repos/'' @ owner @ ''/'' @ repo)) []"
        using None by (simp add: main_def Let_def)
      then show ?thesis by blast
    next
      case (Inr ref)
      then have "main lc net writable owner repo branch =
          fetchTree lc net writable (''/repos/'' @ owner @ ''/'' @ repo)
            (asked (''/repos/'' @ owner @ ''/'' @ repo)) ref"
        using None by (simp add: main_def Let_def)
      then show ?thesis by blast
    qed
    then show ?thesis using False by blast
  qed
qed

lemma fetchTree_atomic:
  assumes "\<forall>u \<in> set reqs. \<not> requestFails net u"
  shows "(\<exists>u \<in> set (requested (fetchTree lc net writable repoUrl reqs ref)). requestFails net u) \<longrightarrow>
       exitCode (fetchTree lc net writable repoUrl reqs ref) = 1 \<and>
       written (fetchTree lc net writable repoUrl reqs ref) = []"
proof
  assume "\<exists>u \<in> set (requested (fetchTree lc net writable repoUrl reqs ref)). requestFails net u"
  then have "requestFails net (repoUrl @ ''/git/trees/'' @ ref @ ''?recursive=1'')"
    using assms by (auto simp: fetchTree_requested asked_def split: if_splits)
  then show "exitCode (fetchTree lc net writable repoUrl reqs ref) = 1 \<and>
       written (fetchTree lc net writable repoUrl reqs ref) = []"
    by (simp add: fetchTree_fails failed_def)
qed

lemma main_fails:
  assumes "\<exists>u \<in> set (requested (main lc net writable owner repo branch)). requestFails net u"
  shows "exitCode (main lc net writable owner repo branch) = 1 \<and>
     written (main lc net writable owner repo branch) = []"
proof -
  let ?r = "''/repos/'' @ owner @ ''/'' @ repo"
  consider ref where "main lc net writable owner repo branch = fetchTree lc net writable ?r [] ref"
    | "main lc net writable owner repo branch = failed (asked ?r) []"
    | ref where "\<not> requestFails net ?r"
        "main lc net writable owner repo branch = fetchTree lc net writable ?r (asked ?r) ref"
    using main_outcome [of lc net writable owner repo branch] by blast
  then show ?thesis
  proof cases
    case 1
    then show ?thesis using assms fetchTree_atomic [of "[]" net lc writable ?r ref] by simp
  next
    case 2
    then show ?thesis by (simp add: failed_def)
  next
    case 3
    have "\<forall>u \<in> set (asked ?r). \<not> requestFails net u"
      using 3(1) set_asked [of ?r] by auto
    then show ?thesis using assms 3(2) fetchTree_atomic [of "asked ?r" net lc writable ?r ref] by simp
  qed
qed

lemma main_written:
  assumes "written (main lc net writable owner repo branch) \<noteq> []"
  shows "\<exists>u b tr out. u \<in> set (requested (main lc net writable owner repo branch)) \<and>
        net u = Reply 200 (Some b) \<and> tree' b = Some tr \<and> generate lc tr = Inr out \<and>
        hd (written (main lc net writable owner repo branch)) = (nodesFile, nodesContent (nodes out))"
proof -
  let ?r = "''/repos/'' @ owner @ ''/'' @ repo"
  have nf: "main lc net writable owner repo branch \<noteq> failed (asked ?r) []"
    using assms by (auto simp: failed_def)
  then obtain reqs ref where m: "main lc net writable owner repo branch = fetchTree lc net writable ?r reqs ref"
    using main_outcome [of lc net writable owner repo branch] by blast
  let ?u = "?r @ ''/git/trees/'' @ ref @ ''?recursive=1''"
  obtain b tr out where "\<not> invalidPath ?u" "net ?u = Reply 200 (Some b)" "tree' b = Some tr"
    "generate lc tr = Inr out"
    "hd (written (fetchTree lc net writable ?r reqs ref)) = (nodesFile, nodesContent (nodes out))"
    using fetchTree_written assms unfolding m by blast
  moreover from this(1) have "?u \<in> set (requested (main lc net writable owner repo branch))"
    unfolding m by (simp add: fetchTree_requested asked_def)
  ultimately show ?thesis unfolding m by blast
qed

lemma script_bad:
  "repoArgMissing argv \<or> repoArgMalformed argv \<Longrightarrow> script lc net writable argv = failed [] []"
  by (auto simp: script_def repoArgMissing_def repoArgMalformed_def split: list.splits)

lemma script_good:
  assumes "\<not> repoArgMissing argv" and "\<not> repoArgMalformed argv"
  shows "\<exists>owner repo branch. script lc net writable argv = main lc net writable owner repo branch"
proof -
  obtain repoArg rest where a: "argv = repoArg # rest" "repoArg \<noteq> []"
    using assms(1) by (cases argv) (auto simp: repoArgMissing_def)
  obtain owner repo others where s: "splitOn CHR ''/'' repoArg = owner # repo # others"
    "owner \<noteq> []" "repo \<noteq> []"
    using assms(2) a by (auto simp: repoArgMalformed_def split: list.splits)
  have "script lc net writable argv =
      main lc net writable owner repo (case rest of [] \<Rightarrow> None | b # bs \<Rightarrow> Some b)"
    using a s by (simp add: script_def)
  then show ?thesis by blast
qed

text \<open>
  C8. For every run of the script (any arguments, network, file system and locale
  comparison): if the repository argument is missing or malformed, the script exits with
  status 1 and has requested and written nothing; if any request it made failed, by a
  connection error or a status other than 200, it exits with status 1 and has written
  nothing; and if it has written anything, then the argument was well-formed, no request
  failed, the tree was fetched with status 200, its topology was built without error, and
  the first file written is \<open>nodes.js\<close> with the nodes of that topology.
\<close>

theorem output_atomic:
  "(repoArgMissing argv \<or> repoArgMalformed argv \<longrightarrow>
      exitCode (script lc net writable argv) = 1 \<and>
      written (script lc net writable argv) = [] \<and>
      requested (script lc net writable argv) = []) \<and>
   ((\<exists>u \<in> set (requested (script lc net writable argv)). requestFails net u) \<longrightarrow>
      exitCode (script lc net writable argv) = 1 \<and>
      written (script lc net writable argv) = []) \<and>
   (written (script lc net writable argv) \<noteq> [] \<longrightarrow>
      \<not> repoArgMissing argv \<and> \<not> repoArgMalformed argv \<and>
      (\<forall>u \<in> set (requested (script lc net writable argv)). \<not> requestFails net u) \<and>
      (\<exists>u b tr out. u \<in> set (requested (script lc net writable argv)) \<and>
         net u = Reply 200 (Some b) \<and> tree' b = Some tr \<and> generate lc tr = Inr out \<and>
         hd (written (script lc net writable argv)) = (nodesFile, nodesContent (nodes out))))"
proof (cases "repoArgMissing argv \<or> repoArgMalformed argv")
  case True
  then have "script lc net writable argv = failed [] []" by (rule script_bad)
  then show ?thesis using True by (simp add: failed_def)
next
  case False
  then obtain owner repo branch
    where m: "script lc net writable argv = main lc net writable owner repo branch"
    using script_good by blast
  have fails: "(\<exists>u \<in> set (requested (script lc net writable argv)). requestFails net u) \<longrightarrow>
      exitCode (script lc net writable argv) = 1 \<and> written (script lc net writable argv) = []"
    unfolding m using main_fails by blast
  have wr: "written (script lc net writable argv) \<noteq> [] \<longrightarrow>
      (\<exists>u b tr out. u \<in> set (requested (script lc net writable argv)) \<and>
         net u = Reply 200 (Some b) \<and> tree' b = Some tr \<and> generate lc tr = Inr out \<and>
         hd (written (script lc net writable argv)) = (nodesFile, nodesContent (nodes out)))"
    unfolding m using main_written by blast
  have ok: "written (script lc net writable argv) \<noteq> [] \<longrightarrow>
      (\<forall>u \<in> set (requested (script lc net writable argv)). \<not> requestFails net u)"
    using fails by blast
  show ?thesis using False fails wr ok by blast
qed

text \<open>
  Four runs: without arguments; with an argument without slash; against a network that
  answers 404; and against a network that serves the sample tree, where files are written
  and the request for the repository did not fail.
\<close>

theorem output_atomic_witness:
  "repoArgMissing [] \<and>
   exitCode (script codeUnitCompare netSample alwaysWritable []) = 1 \<and>
   written (script codeUnitCompare netSample alwaysWritable []) = [] \<and>
   repoArgMalformed [''cardano''] \<and>
   exitCode (script codeUnitCompare netSample alwaysWritable [''cardano'']) = 1 \<and>
   written (script codeUnitCompare netSample alwaysWritable [''cardano'']) = [] \<and>
   (\<exists>u \<in> set (requested (script codeUnitCompare net404 alwaysWritable [''o/r'', ''main''])).
      requestFails net404 u) \<and>
   exitCode (script codeUnitCompare net404 alwaysWritable [''o/r'', ''main'']) = 1 \<and>
   written (script codeUnitCompare net404 alwaysWritable [''o/r'', ''main'']) = [] \<and>
   written (script codeUnitCompare netSample alwaysWritable [''o/r'']) \<noteq> [] \<and>
   ''/repos/o/r'' \<in> set (requested (script codeUnitCompare netSample alwaysWritable [''o/r''])) \<and>
   \<not> requestFails netSample ''/repos/o/r''"
proof -
  have a1: "repoArgMissing []" by (simp add: repoArgMissing_def)
  have a2: "repoArgMalformed [''cardano'']" by (simp add: repoArgMalformed_def)
  have v: "\<not> invalidPath ''/repos/o/r''" "\<not> invalidPath ''/repos/o/r/git/trees/main?recursive=1''"
    by code_simp+
  have a3: "\<exists>u \<in> set (requested (script codeUnitCompare net404 alwaysWritable [''o/r'', ''main''])).
      requestFails net404 u"
    using v by (simp add: script_def main_def fetchTree_requested requestFails_def net404_def asked_def)
  have "generate codeUnitCompare sampleTree = Inr sampleTopology" by (rule generate_sample)
  then have a4: "written (script codeUnitCompare netSample alwaysWritable [''o/r'']) \<noteq> []"
    using v by (simp add: script_def main_def getDefaultBranch_def ghFetch_def netSample_def fetchTree_def
        buildAndWrite_def writeFiles_def alwaysWritable_def)
  note t1 = output_atomic [of "[]" codeUnitCompare netSample alwaysWritable]
  note t2 = output_atomic [of "[''cardano'']" codeUnitCompare netSample alwaysWritable]
  note t3 = output_atomic [of "[''o/r'', ''main'']" codeUnitCompare net404 alwaysWritable]
  note t4 = output_atomic [of "[''o/r'']" codeUnitCompare netSample alwaysWritable]
  have c1: "exitCode (script codeUnitCompare netSample alwaysWritable []) = 1 \<and>
      written (script codeUnitCompare netSample alwaysWritable []) = []"
    using t1 a1 by blast
  have c2: "exitCode (script codeUnitCompare netSample alwaysWritable [''cardano'']) = 1 \<and>
      written (script codeUnitCompare netSample alwaysWritable [''cardano'']) = []"
    using t2 a2 by blast
  have c3: "exitCode (script codeUnitCompare net404 alwaysWritable [''o/r'', ''main'']) = 1 \<and>
      written (script codeUnitCompare net404 alwaysWritable [''o/r'', ''main'']) = []"
    using t3 a3 by blast
  have a5: "''/repos/o/r'' \<in> set (requested (script codeUnitCompare netSample alwaysWritable [''o/r'']))"
    using v by (simp add: script_def main_def Let_def getDefaultBranch_def ghFetch_def netSample_def
        fetchTree_requested asked_def)
  have "\<forall>u \<in> set (requested (script codeUnitCompare netSample alwaysWritable [''o/r''])).
      \<not> requestFails netSample u"
    using t4 a4 by blast
  with a5 have c4: "\<not> requestFails netSample ''/repos/o/r''" by blast
  from a1 c1 a2 c2 a3 c3 a4 a5 c4 show ?thesis by (intro conjI) blast+
qed

text \<open>
  A branch name with a space makes \<open>https.get\<close> throw before anything is sent: the run
  ends with status 1 and has requested and written nothing, whatever the network would
  answer.
\<close>

lemma unescaped_branch_fails:
  "script lc net writable [''o/r'', ''my branch''] = failed [] []"
proof -
  have "invalidPath ''/repos/o/r/git/trees/my branch?recursive=1''" by code_simp
  then show ?thesis
    by (simp add: script_def main_def fetchTree_def ghFetch_def asked_def)
qed

end
